theory Spec2Isabelle
  imports Main "HOL-Library.Sublist"
begin

section \<open>String helpers of the host language\<close>

text \<open>\<^verbatim>\<open>sep.join(xs)\<close>.\<close>

fun join :: "string \<Rightarrow> string list \<Rightarrow> string" where
  "join sep [] = []"
| "join sep [x] = x"
| "join sep (x # y # ys) = x @ sep @ join sep (y # ys)"

text \<open>\<^verbatim>\<open>s.lower()\<close> on ASCII letters.\<close>

definition lower_char :: "char \<Rightarrow> char" where
  "lower_char c =
     (let n = (of_char c :: nat) in if 65 \<le> n \<and> n \<le> 90 then char_of (n + 32) else c)"

definition lower :: "string \<Rightarrow> string" where
  "lower s = map lower_char s"

text \<open>\<^verbatim>\<open>s.replace(old, new, 1)\<close>: the leftmost occurrence of \<open>old\<close> is replaced.\<close>

fun replace_first :: "string \<Rightarrow> string \<Rightarrow> string \<Rightarrow> string" where
  "replace_first old new [] = (if old = [] then new else [])"
| "replace_first old new (c # cs) =
     (if prefix old (c # cs) then new @ drop (length old) (c # cs)
      else c # replace_first old new cs)"

text \<open>\<^verbatim>\<open>s.strip(c)\<close> for a single character \<open>c\<close>.\<close>

definition strip :: "char \<Rightarrow> string \<Rightarrow> string" where
  "strip c s = rev (dropWhile (\<lambda>x. x = c) (rev (dropWhile (\<lambda>x. x = c) s)))"

section \<open>Pages and their table\<close>

text \<open>
  A \<^verbatim>\<open>Page\<close> object carries the columns the methods below read and write: the
  primary key (\<^verbatim>\<open>id\<close>, also read as \<^verbatim>\<open>pk\<close>; unset before the first
  save), \<^verbatim>\<open>title\<close> and \<^verbatim>\<open>slug\<close> (inherited from \<^verbatim>\<open>Displayable\<close>), the
  foreign key \<^verbatim>\<open>parent_id\<close> and the non-editable columns \<^verbatim>\<open>titles\<close> and
  \<^verbatim>\<open>content_model\<close>.
\<close>

record page =
  pk :: "nat option"
  title :: string
  slug :: string
  parent_id :: "nat option"
  titles :: "string option"
  content_model :: "string option"

text \<open>
  The page table maps primary keys to rows; \<open>next_id\<close> is the auto-increment counter
  and \<open>saved\<close> the history of the records handed to the persistence layer, oldest first.
\<close>

record store =
  rows :: "nat \<Rightarrow> page option"
  next_id :: nat
  saved :: "page list"

datatype error = AttributeError | DoesNotExist | IndexError

text \<open>\<^verbatim>\<open>Page.objects.get(pk=i)\<close>: the stored row, or \<^verbatim>\<open>DoesNotExist\<close>.\<close>

definition load :: "store \<Rightarrow> nat \<Rightarrow> error + page" where
  "load db i = (case rows db i of None \<Rightarrow> Inl DoesNotExist | Some r \<Rightarrow> Inr r)"

text \<open>
  The attribute \<^verbatim>\<open>x.parent\<close> of an object to which no parent object has been
  assigned: \<^verbatim>\<open>None\<close> when \<^verbatim>\<open>parent_id\<close> is null, the row loaded by key otherwise.
\<close>

definition get_parent :: "store \<Rightarrow> page \<Rightarrow> error + page option" where
  "get_parent db x =
     (case parent_id x of
        None \<Rightarrow> Inr None
      | Some i \<Rightarrow> (case load db i of Inl e \<Rightarrow> Inl e | Inr r \<Rightarrow> Inr (Some r)))"

text \<open>
  \<^verbatim>\<open>Page.objects.all()\<close>: every row of the table. The keys in use lie below the
  counter, and the rows are listed by key. (The source orders a query by the
  \<^verbatim>\<open>titles\<close> column; the order of the rows plays no role below, where the loop
  over a query result is treated for any duplicate-free list of stored pages.)
\<close>

definition all_pages :: "store \<Rightarrow> page list" where
  "all_pages db = List.map_filter (rows db) [0..<next_id db]"

text \<open>
  The lookup \<^verbatim>\<open>slug__startswith\<close> is carried out by the database, and the
  framework documents that it depends on the backend: PostgreSQL and MySQL compare the
  characters exactly, SQLite compares with \<^verbatim>\<open>LIKE\<close>, which ignores the case of
  ASCII letters.
\<close>

datatype backend = CaseSensitive | CaseInsensitive

definition startswith_lookup :: "backend \<Rightarrow> string \<Rightarrow> string \<Rightarrow> bool" where
  "startswith_lookup backend s t =
     (case backend of
        CaseSensitive \<Rightarrow> prefix s t
      | CaseInsensitive \<Rightarrow> prefix (lower s) (lower t))"

text \<open>\<^verbatim>\<open>Page.objects.filter(slug__startswith=s)\<close>.\<close>

definition filter_slug_startswith :: "backend \<Rightarrow> store \<Rightarrow> string \<Rightarrow> page list" where
  "filter_slug_startswith backend db s =
     filter (\<lambda>r. startswith_lookup backend s (slug r)) (all_pages db)"

text \<open>
  Modelled from the spec: the base classes' \<^verbatim>\<open>save\<close> (reached by
  \<^verbatim>\<open>super(Page, self).save\<close>) is the framework-provided persistence. It stores the
  record under its primary key, giving a record without one the next key of the table.
\<close>

definition base_save :: "store \<Rightarrow> page \<Rightarrow> page \<times> store" where
  "base_save db x =
     (case pk x of
        None \<Rightarrow>
          (let x' = x\<lparr>pk := Some (next_id db)\<rparr> in
           (x', db\<lparr>rows := (rows db)(next_id db \<mapsto> x'),
                    next_id := Suc (next_id db),
                    saved := saved db @ [x']\<rparr>))
      | Some i \<Rightarrow>
          (x, db\<lparr>rows := (rows db)(i \<mapsto> x),
                   next_id := max (next_id db) (Suc i),
                   saved := saved db @ [x]\<rparr>))"

subsection \<open>Page.save (lines 74-87)\<close>

text \<open>
  The loop of lines 83-85: \<open>parent\<close> is the loop variable, \<open>ts\<close> the list
  \<^verbatim>\<open>titles\<close>. Each round prepends the parent's title and moves to the parent's
  parent, which is read from the table. A chain of parents that never ends makes the
  loop run forever: the result is \<open>None\<close>.
\<close>

partial_function (option) titles_loop ::
  "store \<Rightarrow> page option \<Rightarrow> string list \<Rightarrow> (error + string list) option" where
  "titles_loop db parent ts =
     (case parent of
        None \<Rightarrow> Some (Inr ts)
      | Some par \<Rightarrow>
          (case get_parent db par of
             Inl e \<Rightarrow> Some (Inl e)
           | Inr nxt \<Rightarrow> titles_loop db nxt (title par # ts)))"

declare titles_loop.simps [code]

text \<open>
  \<open>save object_name db self self_parent\<close>: \<open>object_name\<close> is
  \<^verbatim>\<open>self._meta.object_name\<close>, and \<open>self_parent\<close> is what the attribute
  \<^verbatim>\<open>self.parent\<close> evaluates to on this object: \<open>get_parent db self\<close> for an
  object as loaded from the table, and the assigned object after
  \<^verbatim>\<open>self.parent = new_parent\<close>. The result is the outcome, the object and the table
  afterwards.
\<close>

definition save ::
  "string \<Rightarrow> store \<Rightarrow> page \<Rightarrow> error + page option \<Rightarrow> ((error + unit) \<times> page \<times> store) option" where
  "save object_name db self self_parent =
     (let self1 = (if pk self = None then self\<lparr>content_model := Some (lower object_name)\<rparr>
                   else self) in
      case self_parent of
        Inl e \<Rightarrow> Some (Inl e, self1, db)
      | Inr parent \<Rightarrow>
          (case titles_loop db parent [title self1] of
             None \<Rightarrow> None
           | Some (Inl e) \<Rightarrow> Some (Inl e, self1, db)
           | Some (Inr ts) \<Rightarrow>
               (case base_save db (self1\<lparr>titles := Some (join '' / '' ts)\<rparr>) of
                  (self2, db') \<Rightarrow> Some (Inr (), self2, db'))))"

subsection \<open>Page.get_slug (lines 149-156)\<close>

text \<open>\<^verbatim>\<open>slugify\<close> is imported from \<^verbatim>\<open>mezzanine.utils.urls\<close> and is a parameter.\<close>

definition get_slug :: "(string \<Rightarrow> string) \<Rightarrow> store \<Rightarrow> page \<Rightarrow> error + string" where
  "get_slug slugify db self =
     (let slug' = slugify (title self) in
      case get_parent db self of
        Inl e \<Rightarrow> Inl e
      | Inr (Some parent) \<Rightarrow> Inr (slug parent @ ''/'' @ slug')
      | Inr None \<Rightarrow> Inr slug')"

subsection \<open>Page.overridden and Page.set_slug (lines 158-167, 197-205)\<close>

text \<open>
  \<^verbatim>\<open>overridden\<close> reverses the URL of the \<^verbatim>\<open>page\<close> pattern for the slug and
  resolves it again; the URL configuration is the parameter \<open>resolve_page_url\<close>, from
  a slug to the view its URL resolves to.
\<close>

datatype view = PageView | OtherView string

definition overridden :: "(string \<Rightarrow> view) \<Rightarrow> page \<Rightarrow> bool" where
  "overridden resolve_page_url self = (resolve_page_url (slug self) \<noteq> PageView)"

text \<open>
  The body of the loop of lines 163-166 over the pages the query returned; \<open>s\<close> is
  \<^verbatim>\<open>self.slug\<close>, \<open>n\<close> is \<^verbatim>\<open>new_slug\<close>. The pages are \<^verbatim>\<open>Page\<close> objects
  fresh from the table. The query of line 163 is run on the backend in use, which
  \<^verbatim>\<open>set_slug\<close> and \<^verbatim>\<open>set_parent\<close> take as a parameter.
\<close>

fun set_slug_loop ::
  "(string \<Rightarrow> view) \<Rightarrow> string \<Rightarrow> string \<Rightarrow> store \<Rightarrow> page list \<Rightarrow> ((error + unit) \<times> store) option" where
  "set_slug_loop urls s n db [] = Some (Inr (), db)"
| "set_slug_loop urls s n db (page # pages) =
     (if \<not> overridden urls page then
        (let page1 = page\<lparr>slug := n @ drop (length s) (slug page)\<rparr> in
         case save ''Page'' db page1 (get_parent db page1) of
           None \<Rightarrow> None
         | Some (Inl e, _, db') \<Rightarrow> Some (Inl e, db')
         | Some (Inr _, _, db') \<Rightarrow> set_slug_loop urls s n db' pages)
      else set_slug_loop urls s n db pages)"

definition set_slug ::
  "backend \<Rightarrow> (string \<Rightarrow> view) \<Rightarrow> store \<Rightarrow> page \<Rightarrow> string \<Rightarrow> ((error + unit) \<times> page \<times> store) option" where
  "set_slug backend urls db self new_slug =
     (case set_slug_loop urls (slug self) new_slug db (filter_slug_startswith backend db (slug self)) of
        None \<Rightarrow> None
      | Some (Inl e, db') \<Rightarrow> Some (Inl e, self, db')
      | Some (Inr _, db') \<Rightarrow> Some (Inr (), self\<lparr>slug := new_slug\<rparr>, db'))"

subsection \<open>Page.set_parent (lines 169-195)\<close>

text \<open>
  The loop of lines 179-184: \<open>self_pk\<close> is \<^verbatim>\<open>self.pk\<close>, \<open>parent\<close> the loop
  variable. It raises \<^verbatim>\<open>AttributeError\<close> at the first page of the chain whose
  primary key is \<^verbatim>\<open>self.pk\<close>. Like the loop of \<^verbatim>\<open>save\<close>, it runs forever on
  a chain of parents that never ends.
\<close>

partial_function (option) cycle_check ::
  "store \<Rightarrow> nat option \<Rightarrow> page option \<Rightarrow> (error + unit) option" where
  "cycle_check db self_pk parent =
     (case parent of
        None \<Rightarrow> Some (Inr ())
      | Some par \<Rightarrow>
          if pk par = self_pk then Some (Inl AttributeError)
          else (case get_parent db par of
                  Inl e \<Rightarrow> Some (Inl e)
                | Inr nxt \<Rightarrow> cycle_check db self_pk nxt))"

declare cycle_check.simps [code]

text \<open>
  \<open>new_parent\<close> is a page object or \<^verbatim>\<open>None\<close>. Line 175 reads
  \<^verbatim>\<open>self.parent\<close> before the check. The assignment
  \<^verbatim>\<open>self.parent = new_parent\<close> of line 186 stores the primary key of
  \<open>new_parent\<close> in \<^verbatim>\<open>parent_id\<close>, and from then on \<^verbatim>\<open>self.parent\<close> is the
  object \<open>new_parent\<close>. An error leaves the object and the table as they are at
  that moment.
\<close>

definition set_parent ::
  "string \<Rightarrow> backend \<Rightarrow> (string \<Rightarrow> view) \<Rightarrow> store \<Rightarrow> page \<Rightarrow> page option \<Rightarrow> ((error + unit) \<times> page \<times> store) option" where
  "set_parent object_name backend urls db self new_parent =
     (let self_slug = slug self in
      case get_parent db self of
        Inl e \<Rightarrow> Some (Inl e, self, db)
      | Inr old_parent \<Rightarrow>
          (let old_parent_slug = (case old_parent of Some p \<Rightarrow> slug p | None \<Rightarrow> []);
               new_parent_slug = (case new_parent of Some p \<Rightarrow> slug p | None \<Rightarrow> []) in
           case cycle_check db (pk self) new_parent of
             None \<Rightarrow> None
           | Some (Inl e) \<Rightarrow> Some (Inl e, self, db)
           | Some (Inr _) \<Rightarrow>
               (let self1 = self\<lparr>parent_id := (case new_parent of Some p \<Rightarrow> pk p | None \<Rightarrow> None)\<rparr> in
                case save object_name db self1 (Inr new_parent) of
                  None \<Rightarrow> None
                | Some (Inl e, self2, db') \<Rightarrow> Some (Inl e, self2, db')
                | Some (Inr _, self2, db') \<Rightarrow>
                    if self_slug \<noteq> [] then
                      if old_parent_slug = [] then
                        set_slug backend urls db' self2 (join ''/'' [new_parent_slug, slug self2])
                      else if prefix old_parent_slug (slug self2) then
                        set_slug backend urls db' self2
                          (strip (CHR ''/'') (replace_first old_parent_slug new_parent_slug (slug self2)))
                      else Some (Inr (), self2, db')
                    else Some (Inr (), self2, db'))))"

subsection \<open>Page.get_ascendants (lines 102-132)\<close>

text \<open>
  An object together with its \<^verbatim>\<open>_ascendants\<close> attribute, \<open>None\<close> while the
  attribute is not set.
\<close>

record page_object =
  columns :: page
  ascendants :: "page list option"

text \<open>The loop of lines 128-131, \<open>acc\<close> being \<^verbatim>\<open>self._ascendants\<close>.\<close>

partial_function (option) ascend ::
  "store \<Rightarrow> page \<Rightarrow> page list \<Rightarrow> (error + page list) option" where
  "ascend db child acc =
     (case parent_id child of
        None \<Rightarrow> Some (Inr acc)
      | Some i \<Rightarrow>
          (case load db i of
             Inl e \<Rightarrow> Some (Inl e)
           | Inr par \<Rightarrow> ascend db par (acc @ [par])))"

declare ascend.simps [code]

text \<open>
  The manager method \<^verbatim>\<open>Page.objects.with_ascendants_for_slug\<close> (with its
  \<^verbatim>\<open>for_user\<close> argument) lives in \<^verbatim>\<open>mezzanine.pages.managers\<close> and is a
  parameter. The test \<^verbatim>\<open>not self.parent_id\<close> holds for a null key and for key 0.
  The result is the returned list and the object afterwards.
\<close>

definition get_ascendants ::
  "(store \<Rightarrow> string \<Rightarrow> page_object list) \<Rightarrow> store \<Rightarrow> page_object \<Rightarrow>
     (error + page list \<times> page_object) option" where
  "get_ascendants with_ascendants_for_slug db self =
     (if parent_id (columns self) = None \<or> parent_id (columns self) = Some 0 then Some (Inr ([], self))
      else
        (case (case ascendants self of
                 Some a \<Rightarrow> Inr a
               | None \<Rightarrow>
                   if slug (columns self) \<noteq> [] then
                     (case with_ascendants_for_slug db (slug (columns self)) of
                        [] \<Rightarrow> Inl IndexError
                      | p0 # _ \<Rightarrow>
                          (case ascendants p0 of None \<Rightarrow> Inl AttributeError | Some a \<Rightarrow> Inr a))
                   else Inr []) of
           Inl e \<Rightarrow> Some (Inl e)
         | Inr a \<Rightarrow>
             if a = [] then
               (case ascend db (columns self) [] of
                  None \<Rightarrow> None
                | Some (Inl e) \<Rightarrow> Some (Inl e)
                | Some (Inr a') \<Rightarrow> Some (Inr (a', self\<lparr>ascendants := Some a'\<rparr>)))
             else Some (Inr (a, self\<lparr>ascendants := Some a\<rparr>))))"

section \<open>Moderation workflow (class Moderated of mezzanine/pages/models.py)\<close>

text \<open>
  The approval states of \<^verbatim>\<open>Moderated\<close> are the class constants
  \<^verbatim>\<open>PENDING = 1\<close>, \<^verbatim>\<open>APPROVED = 2\<close>, \<^verbatim>\<open>REJECTED = 3\<close>.
  The field \<^verbatim>\<open>approval\<close> is a nullable integer, \<^verbatim>\<open>owning_group\<close> a
  nullable foreign key to a group. The fields \<^verbatim>\<open>status\<close> and
  \<^verbatim>\<open>publish_date\<close> are inherited from \<^verbatim>\<open>Displayable\<close>; time stamps are
  integers (seconds).
\<close>

definition PENDING :: int where "PENDING = 1"
definition APPROVED :: int where "APPROVED = 2"
definition REJECTED :: int where "REJECTED = 3"

definition APPROVAL_STATES :: "(int \<times> string) list" where
  "APPROVAL_STATES = [(PENDING, ''Pending''), (APPROVED, ''Approved''), (REJECTED, ''Rejected'')]"

record group =
  group_pk :: nat
  group_name :: string

record moderated =
  status :: int
  approval :: "int option"
  publish_date :: int
  owning_group :: "group option"

text \<open>
  \<^verbatim>\<open>current_status\<close> (lines 317-328). The constant \<^verbatim>\<open>CONTENT_STATUS_DRAFT\<close>,
  the date formatter \<^verbatim>\<open>localize\<close> and the clock \<^verbatim>\<open>now()\<close> come from
  modules outside this file and are parameters.
\<close>

definition current_status :: "int \<Rightarrow> (int \<Rightarrow> string) \<Rightarrow> int \<Rightarrow> moderated \<Rightarrow> string \<times> string" where
  "current_status CONTENT_STATUS_DRAFT localize now self =
     (if status self = CONTENT_STATUS_DRAFT then
        (if approval self = Some PENDING then (''pending'', ''Pending approval'')
         else if approval self = Some REJECTED then (''rejected'', ''Rejected'')
         else (''draft'', ''Draft''))
      else
        (let pdate = localize (publish_date self) in
         if publish_date self < now then (''published'', ''Approved, published on '' @ pdate)
         else (''approved'', ''Approved, to be published on '' @ pdate)))"

text \<open>
  \<^verbatim>\<open>send_pending_email\<close> (lines 296-315) reads the user table, the current site
  and the settings, and hands one message to \<^verbatim>\<open>send_mail\<close>; the messages handed
  over are collected in \<open>outbox\<close>. A user's \<open>groups\<close> are the groups the user
  is a member of, each at most once, and group names are unique.
\<close>

record user =
  user_pk :: nat
  email :: string
  groups :: "group list"

record mail =
  mail_subject :: string
  mail_body :: string
  mail_from :: "string option"
  mail_to :: "string list"
  fail_silently :: bool

record site =
  users :: "user list"
  site_domain :: string
  DEFAULT_FROM_EMAIL :: "string option"
  DEBUG :: bool
  outbox :: "mail list"

text \<open>\<^verbatim>\<open>.filter(groups=g)\<close> on a query set of users.\<close>

definition filter_groups :: "group \<Rightarrow> user list \<Rightarrow> user list" where
  "filter_groups g us = filter (\<lambda>u. list_ex (\<lambda>h. group_pk h = group_pk g) (groups u)) us"

text \<open>\<^verbatim>\<open>.filter(Q(groups__name=name))\<close> on a query set of users.\<close>

definition filter_groups_name :: "string \<Rightarrow> user list \<Rightarrow> user list" where
  "filter_groups_name name us = filter (\<lambda>u. list_ex (\<lambda>h. group_name h = name) (groups u)) us"

text \<open>
  \<open>verbose_name\<close> is \<^verbatim>\<open>self._meta.verbose_name\<close> and \<open>admin_url\<close> the value of
  the property \<^verbatim>\<open>self.admin_url\<close>, computed by a helper of
  \<^verbatim>\<open>mezzanine.utils.urls\<close>; both are parameters. The result is the returned
  \<^verbatim>\<open>publishers\<close> and the site afterwards.
\<close>

definition send_pending_email :: "string \<Rightarrow> string \<Rightarrow> site \<Rightarrow> moderated \<Rightarrow> user list \<times> site" where
  "send_pending_email verbose_name admin_url env self =
     (let type_name = lower verbose_name;
          subject = ''Draft '' @ type_name @ '' needs moderation'';
          body = ''http://'' @ site_domain env @ admin_url;
          publishers = (case owning_group self of
                          Some g \<Rightarrow> filter_groups_name ''Publisher'' (filter_groups g (users env))
                        | None \<Rightarrow> []);
          publishers = (if publishers \<noteq> [] then publishers
                        else filter_groups_name ''Publisher'' (users env));
          to = remdups (map email publishers);
          from_email = DEFAULT_FROM_EMAIL env
      in (publishers,
          env\<lparr>outbox := outbox env @
                 [\<lparr>mail_subject = subject, mail_body = body, mail_from = from_email,
                   mail_to = to, fail_silently = \<not> DEBUG env\<rparr>]\<rparr>))"

section \<open>The parent chain and the shape of the table\<close>

text \<open>
  \<open>chain db x xs\<close>: starting at the object \<open>x\<close> (or at nothing) and following the
  parent pointers through the table, \<open>xs\<close> lists the pages met, \<open>x\<close> first and the
  root last.
\<close>

inductive chain :: "store \<Rightarrow> page option \<Rightarrow> page list \<Rightarrow> bool" for db where
  chain_root: "chain db None []"
| chain_step: "get_parent db x = Inr nxt \<Longrightarrow> chain db nxt xs \<Longrightarrow> chain db (Some x) (x # xs)"

text \<open>\<open>reaches db q x\<close>: \<open>x\<close> is \<open>q\<close> or is met by following the parents of \<open>q\<close>.\<close>

inductive reaches :: "store \<Rightarrow> page \<Rightarrow> page \<Rightarrow> bool" for db q where
  reaches_self: "reaches db q q"
| reaches_parent: "reaches db q x \<Longrightarrow> get_parent db x = Inr (Some y) \<Longrightarrow> reaches db q y"

text \<open>
  A page \<open>p\<close> occurs in the ancestor chain of the candidate parent \<open>q\<close> when \<open>q\<close>
  or a page met by following the parents of \<open>q\<close> has the primary key of \<open>p\<close>.
\<close>

definition in_ancestor_chain :: "store \<Rightarrow> page \<Rightarrow> page option \<Rightarrow> bool" where
  "in_ancestor_chain db p q =
     (case q of None \<Rightarrow> False | Some q' \<Rightarrow> (\<exists>x. reaches db q' x \<and> pk x = pk p))"

text \<open>
  The table is well-formed when every row carries its own key as primary key and the
  keys are those the counter has handed out.
\<close>

definition table_ok :: "store \<Rightarrow> bool" where
  "table_ok db = (\<forall>i r. rows db i = Some r \<longrightarrow> pk r = Some i \<and> i < next_id db)"

text \<open>The parent pointers of the table, as pairs (parent key, child key).\<close>

definition parent_rel :: "store \<Rightarrow> (nat \<times> nat) set" where
  "parent_rel db = {(j, i). \<exists>r. rows db i = Some r \<and> parent_id r = Some j}"

text \<open>
  The stored pages form a forest: every parent pointer leads to a stored page and no
  page is its own ancestor.
\<close>

definition forest :: "store \<Rightarrow> bool" where
  "forest db = ((\<forall>(j, i) \<in> parent_rel db. rows db j \<noteq> None) \<and> acyclic (parent_rel db))"

text \<open>An object is stored when the table holds it, as it is, under its primary key.\<close>

definition stored :: "store \<Rightarrow> page \<Rightarrow> bool" where
  "stored db x = (\<exists>i. pk x = Some i \<and> rows db i = Some x)"

section \<open>A small site\<close>

text \<open>
  Four pages: About (1) with child Team (2) and grandchild Mike (3), and Blog (4), whose
  URL is claimed by an explicit pattern of the blog application.
\<close>

definition site_about :: page where
  "site_about = \<lparr>pk = Some 1, title = ''About'', slug = ''about'', parent_id = None,
                  titles = Some ''About'', content_model = Some ''richtextpage''\<rparr>"

definition site_team :: page where
  "site_team = \<lparr>pk = Some 2, title = ''Team'', slug = ''about/team'', parent_id = Some 1,
                 titles = Some ''About / Team'', content_model = Some ''richtextpage''\<rparr>"

definition site_mike :: page where
  "site_mike = \<lparr>pk = Some 3, title = ''Mike'', slug = ''about/team/mike'', parent_id = Some 2,
                 titles = Some ''About / Team / Mike'', content_model = Some ''richtextpage''\<rparr>"

definition site_blog :: page where
  "site_blog = \<lparr>pk = Some 4, title = ''Blog'', slug = ''blog'', parent_id = None,
                 titles = Some ''Blog'', content_model = Some ''richtextpage''\<rparr>"

definition site_db :: store where
  "site_db = \<lparr>rows = [1 \<mapsto> site_about, 2 \<mapsto> site_team, 3 \<mapsto> site_mike, 4 \<mapsto> site_blog],
               next_id = 5, saved = []\<rparr>"

definition site_urls :: "string \<Rightarrow> view" where
  "site_urls s = (if s = ''blog'' then OtherView ''blog_post_list'' else PageView)"

text \<open>
  A second table: Blog (1), whose URL is claimed by the blog application, and News (2),
  which was moved under Blog. \<open>news_page_stale\<close> is the News object as it was loaded
  before the move.
\<close>

definition blog_page :: page where
  "blog_page = \<lparr>pk = Some 1, title = ''Blog'', slug = ''blog'', parent_id = None,
                 titles = Some ''Blog'', content_model = Some ''richtextpage''\<rparr>"

definition news_page :: page where
  "news_page = \<lparr>pk = Some 2, title = ''News'', slug = ''news'', parent_id = Some 1,
                 titles = Some ''Blog / News'', content_model = Some ''richtextpage''\<rparr>"

definition news_page_stale :: page where
  "news_page_stale = \<lparr>pk = Some 2, title = ''News'', slug = ''news'', parent_id = None,
                       titles = Some ''News'', content_model = Some ''richtextpage''\<rparr>"

definition news_db :: store where
  "news_db = \<lparr>rows = [1 \<mapsto> blog_page, 2 \<mapsto> news_page], next_id = 3, saved = []\<rparr>"

text \<open>
  Objects that are not rows of the first table: Mike as loaded, with a parent key that
  no row carries, and two pages that have not been saved yet.
\<close>

definition orphan_page :: page where
  "orphan_page = \<lparr>pk = Some 3, title = ''Mike'', slug = ''about/team/mike'', parent_id = Some 9,
                   titles = Some ''About / Team / Mike'', content_model = Some ''richtextpage''\<rparr>"

definition unsaved_ann :: page where
  "unsaved_ann = \<lparr>pk = None, title = ''Ann'', slug = ''ann'', parent_id = None,
                   titles = None, content_model = None\<rparr>"

definition unsaved_bob :: page where
  "unsaved_bob = \<lparr>pk = None, title = ''Bob'', slug = ''bob'', parent_id = None,
                   titles = None, content_model = None\<rparr>"



text \<open>
  Two answers of \<^verbatim>\<open>with_ascendants_for_slug\<close> to the slug of Mike when Mike is a
  draft that the user may not see: the deepest page it finds is Team, with the
  ascendants of Team; or it finds no page at all.
\<close>

definition query_finds_team :: "store \<Rightarrow> string \<Rightarrow> page_object list" where
  "query_finds_team db s = [\<lparr>columns = site_team, ascendants = Some [site_about]\<rparr>]"

definition query_finds_nothing :: "store \<Rightarrow> string \<Rightarrow> page_object list" where
  "query_finds_nothing db s = []"

text \<open>
  Three users: Alice publishes and belongs to the Sports desk, Bob publishes, Carol
  writes for the Sports desk. One draft item is owned by the Sports desk.
\<close>

definition desk_publisher :: group where
  "desk_publisher = \<lparr>group_pk = 2, group_name = ''Publisher''\<rparr>"

definition desk_author :: group where
  "desk_author = \<lparr>group_pk = 1, group_name = ''Author''\<rparr>"

definition desk_sports :: group where
  "desk_sports = \<lparr>group_pk = 5, group_name = ''Sports''\<rparr>"

definition user_alice :: user where
  "user_alice = \<lparr>user_pk = 1, email = ''alice@example.com'', groups = [desk_publisher, desk_sports]\<rparr>"

definition user_bob :: user where
  "user_bob = \<lparr>user_pk = 2, email = ''bob@example.com'', groups = [desk_publisher]\<rparr>"

definition user_carol :: user where
  "user_carol = \<lparr>user_pk = 3, email = ''carol@example.com'', groups = [desk_author, desk_sports]\<rparr>"

definition site_env :: site where
  "site_env = \<lparr>users = [user_alice, user_bob, user_carol], site_domain = ''example.com'',
                DEFAULT_FROM_EMAIL = Some ''cms@example.com'', DEBUG = False, outbox = []\<rparr>"

definition sports_draft :: moderated where
  "sports_draft = \<lparr>status = 1, approval = Some 1, publish_date = 0, owning_group = Some desk_sports\<rparr>"

section \<open>Lemmas about the table, the parent chain and the loops\<close>

lemma set_map_filter: "set (List.map_filter f xs) = {y. \<exists>x\<in>set xs. f x = Some y}"
  by (induction xs) (auto simp: List.map_filter_simps split: option.splits)

lemma all_pages_iff: "table_ok db \<Longrightarrow> x \<in> set (all_pages db) \<longleftrightarrow> (\<exists>i. rows db i = Some x)"
  by (auto simp: all_pages_def set_map_filter table_ok_def)

lemma all_pages_stored: "table_ok db \<Longrightarrow> x \<in> set (all_pages db) \<Longrightarrow> stored db x"
  by (auto simp: all_pages_iff stored_def table_ok_def)

lemma distinct_map_filter_pk:
  "distinct xs \<Longrightarrow> (\<forall>i r. f i = Some r \<longrightarrow> pk r = Some i) \<Longrightarrow>
     distinct (map pk (List.map_filter f xs))"
proof (induction xs)
  case Nil
  then show ?case by (simp add: List.map_filter_simps)
next
  case (Cons a xs)
  then show ?case
    by (cases "f a") (auto simp: List.map_filter_simps set_map_filter)
qed

lemma all_pages_distinct: "table_ok db \<Longrightarrow> distinct (map pk (all_pages db))"
  unfolding all_pages_def
  by (rule distinct_map_filter_pk) (auto simp: table_ok_def)

lemma finite_parent_rel:
  assumes "table_ok db" "forest db"
  shows "finite (parent_rel db)"
proof -
  have fk: "\<forall>(j, i) \<in> parent_rel db. rows db j \<noteq> None"
    using assms(2) by (simp add: forest_def)
  have "parent_rel db \<subseteq> {..<next_id db} \<times> {..<next_id db}"
  proof
    fix e assume e: "e \<in> parent_rel db"
    obtain j i where ji: "e = (j, i)" by (cases e)
    from e ji obtain r where "rows db i = Some r" by (auto simp: parent_rel_def)
    with assms(1) have "i < next_id db" by (auto simp: table_ok_def)
    moreover from e ji fk obtain rj where "rows db j = Some rj" by fastforce
    with assms(1) have "j < next_id db" by (auto simp: table_ok_def)
    ultimately show "e \<in> {..<next_id db} \<times> {..<next_id db}" using ji by simp
  qed
  then show ?thesis by (rule finite_subset) simp
qed

lemma wf_parent_rel: "table_ok db \<Longrightarrow> forest db \<Longrightarrow> wf (parent_rel db)"
  by (simp add: finite_acyclic_wf finite_parent_rel forest_def)

lemma chain_exists_row:
  assumes ok: "table_ok db" and fo: "forest db"
  shows "rows db i = Some r \<Longrightarrow> \<exists>xs. chain db (Some r) (r # xs)"
proof (induction i arbitrary: r rule: wf_induct_rule [OF wf_parent_rel [OF ok fo]])
  case (1 i)
  show ?case
  proof (cases "parent_id r")
    case None
    then have "get_parent db r = Inr None" by (simp add: get_parent_def)
    then show ?thesis using chain_root chain_step by blast
  next
    case (Some j)
    with 1(2) have rel: "(j, i) \<in> parent_rel db" by (auto simp: parent_rel_def)
    with fo obtain rj where rj: "rows db j = Some rj" by (auto simp: forest_def)
    from 1(1) [OF rel rj] obtain ys where "chain db (Some rj) (rj # ys)" by blast
    moreover have "get_parent db r = Inr (Some rj)"
      using Some rj by (simp add: get_parent_def load_def)
    ultimately show ?thesis using chain_step by blast
  qed
qed

lemma chain_exists_stored:
  "table_ok db \<Longrightarrow> forest db \<Longrightarrow> stored db x \<Longrightarrow> \<exists>xs. chain db (Some x) (x # xs)"
  by (auto simp: stored_def dest: chain_exists_row)

lemma chain_exists_parent:
  assumes "table_ok db" "forest db" "get_parent db x = Inr nxt"
  shows "\<exists>xs. chain db nxt xs"
proof (cases nxt)
  case None
  then show ?thesis using chain_root by blast
next
  case (Some y)
  with assms(3) have "\<exists>j. rows db j = Some y"
    by (auto simp: get_parent_def load_def split: option.splits)
  with assms(1,2) Some show ?thesis using chain_exists_row by blast
qed

lemma titles_loop_None: "titles_loop db None ts = Some (Inr ts)"
  by (subst titles_loop.simps) simp

lemma titles_loop_Some:
  "titles_loop db (Some par) ts =
     (case get_parent db par of
        Inl e \<Rightarrow> Some (Inl e)
      | Inr nxt \<Rightarrow> titles_loop db nxt (title par # ts))"
  by (subst titles_loop.simps) simp

lemma titles_loop_chain:
  "chain db parent xs \<Longrightarrow> titles_loop db parent ts = Some (Inr (map title (rev xs) @ ts))"
  by (induction arbitrary: ts rule: chain.induct) (simp_all add: titles_loop_None titles_loop_Some)

lemma parent_chain_row:
  assumes "table_ok db" "forest db" "rows db i = Some r"
  shows "\<exists>nxt xs. get_parent db r = Inr nxt \<and> chain db nxt xs"
proof -
  from chain_exists_row [OF assms] obtain xs where "chain db (Some r) (r # xs)" ..
  then show ?thesis by (cases rule: chain.cases) auto
qed

lemma save_stored:
  assumes "chain db parent xs" "pk x = Some i"
  shows "save object_name db x (Inr parent) =
           Some (Inr (), x\<lparr>titles := Some (join '' / '' (map title (rev xs) @ [title x]))\<rparr>,
                 db\<lparr>rows := (rows db)(i \<mapsto> x\<lparr>titles := Some (join '' / '' (map title (rev xs) @ [title x]))\<rparr>),
                    next_id := max (next_id db) (Suc i),
                    saved := saved db @ [x\<lparr>titles := Some (join '' / '' (map title (rev xs) @ [title x]))\<rparr>]\<rparr>)"
  using titles_loop_chain [OF assms(1)] assms(2)
  by (simp add: save_def base_save_def)

lemma parent_rel_update_same:
  assumes "rows db i = Some r" "parent_id x = parent_id r"
  shows "parent_rel (db\<lparr>rows := (rows db)(i \<mapsto> x), next_id := k, saved := l\<rparr>) = parent_rel db"
  using assms by (auto simp: parent_rel_def)

lemma forest_update_same:
  assumes "forest db" "rows db i = Some r" "parent_id x = parent_id r"
  shows "forest (db\<lparr>rows := (rows db)(i \<mapsto> x), next_id := k, saved := l\<rparr>)"
proof -
  have "parent_rel (db\<lparr>rows := (rows db)(i \<mapsto> x), next_id := k, saved := l\<rparr>) = parent_rel db"
    using assms(2,3) by (rule parent_rel_update_same)
  moreover have "\<forall>(j, i) \<in> parent_rel db. rows db j \<noteq> None" "acyclic (parent_rel db)"
    using assms(1) by (simp_all add: forest_def)
  ultimately show ?thesis by (fastforce simp: forest_def)
qed

lemma table_ok_update:
  assumes "table_ok db" "pk x = Some i"
  shows "table_ok (db\<lparr>rows := (rows db)(i \<mapsto> x), next_id := max (next_id db) (Suc i), saved := l\<rparr>)"
  unfolding table_ok_def
proof (intro allI impI)
  fix j r
  assume r: "rows (db\<lparr>rows := (rows db)(i \<mapsto> x), next_id := max (next_id db) (Suc i), saved := l\<rparr>) j = Some r"
  show "pk r = Some j \<and>
        j < next_id (db\<lparr>rows := (rows db)(i \<mapsto> x), next_id := max (next_id db) (Suc i), saved := l\<rparr>)"
  proof (cases "j = i")
    case True
    with r assms(2) show ?thesis by (auto simp: max_def)
  next
    case False
    with r have "rows db j = Some r" by simp
    with assms(1) have "pk r = Some j \<and> j < next_id db" by (simp add: table_ok_def)
    then show ?thesis by (simp add: max_def)
  qed
qed

lemma set_slug_loop_total:
  assumes "table_ok db" "forest db" "\<forall>x\<in>set pages. stored db x" "distinct (map pk pages)"
  shows "\<exists>db'. set_slug_loop urls s n db pages = Some (Inr (), db') \<and>
           table_ok db' \<and> forest db' \<and> next_id db' = next_id db \<and>
           (\<forall>i. rows db i = None \<longrightarrow> rows db' i = None) \<and>
           (\<forall>i r. rows db i = Some r \<longrightarrow>
              (if r \<in> set pages \<and> \<not> overridden urls r
               then \<exists>t. rows db' i = Some (r\<lparr>slug := n @ drop (length s) (slug r), titles := t\<rparr>)
               else rows db' i = Some r)) \<and>
           (\<exists>ys. saved db' = saved db @ ys \<and>
              list_all2 (\<lambda>r y. \<exists>t. y = r\<lparr>slug := n @ drop (length s) (slug r), titles := t\<rparr>)
                (filter (\<lambda>r. \<not> overridden urls r) pages) ys)"
  using assms
proof (induction pages arbitrary: db)
  case Nil
  then show ?case by simp
next
  case (Cons x xs)
  from Cons.prems(3) obtain i where i: "pk x = Some i" "rows db i = Some x"
    by (auto simp: stored_def)
  have xs_stored: "\<forall>y\<in>set xs. stored db y" using Cons.prems(3) by simp
  have xs_dist: "distinct (map pk xs)" and x_notin: "pk x \<notin> pk ` set xs"
    using Cons.prems(4) by simp_all
  have other: "r \<in> set xs \<longleftrightarrow> r \<in> set (x # xs)" if "rows db j = Some r" "j \<noteq> i" for r j
  proof -
    from that Cons.prems(1) have "pk r = Some j" by (simp add: table_ok_def)
    with that(2) i(1) have "r \<noteq> x" by auto
    then show ?thesis by simp
  qed
  show ?case
  proof (cases "overridden urls x")
    case True
    from Cons.IH [OF Cons.prems(1,2) xs_stored xs_dist] obtain db' where
      db': "set_slug_loop urls s n db xs = Some (Inr (), db')"
        "table_ok db'" "forest db'" "next_id db' = next_id db"
        "\<forall>i. rows db i = None \<longrightarrow> rows db' i = None"
        "\<forall>i r. rows db i = Some r \<longrightarrow>
              (if r \<in> set xs \<and> \<not> overridden urls r
               then \<exists>t. rows db' i = Some (r\<lparr>slug := n @ drop (length s) (slug r), titles := t\<rparr>)
               else rows db' i = Some r)"
        "\<exists>ys. saved db' = saved db @ ys \<and>
              list_all2 (\<lambda>r y. \<exists>t. y = r\<lparr>slug := n @ drop (length s) (slug r), titles := t\<rparr>)
                (filter (\<lambda>r. \<not> overridden urls r) xs) ys"
      by blast
    have "\<forall>i r. rows db i = Some r \<longrightarrow>
              (if r \<in> set (x # xs) \<and> \<not> overridden urls r
               then \<exists>t. rows db' i = Some (r\<lparr>slug := n @ drop (length s) (slug r), titles := t\<rparr>)
               else rows db' i = Some r)"
      using db'(6) True by auto
    with db' True show ?thesis by simp
  next
    case False
    define x1 where "x1 = x\<lparr>slug := n @ drop (length s) (slug x)\<rparr>"
    from parent_chain_row [OF Cons.prems(1,2) i(2)] obtain nxt cs where
      nxt: "get_parent db x = Inr nxt" "chain db nxt cs" by blast
    have gp: "get_parent db x1 = Inr nxt" using nxt(1) by (simp add: x1_def get_parent_def)
    define x2 where "x2 = x1\<lparr>titles := Some (join '' / '' (map title (rev cs) @ [title x1]))\<rparr>"
    define db1 where "db1 = db\<lparr>rows := (rows db)(i \<mapsto> x2),
                    next_id := max (next_id db) (Suc i), saved := saved db @ [x2]\<rparr>"
    have sv: "save ''Page'' db x1 (get_parent db x1) = Some (Inr (), x2, db1)"
      unfolding gp x2_def db1_def by (rule save_stored [OF nxt(2)]) (simp add: x1_def i)
    have ok1: "table_ok db1" unfolding db1_def
      by (rule table_ok_update [OF Cons.prems(1)]) (simp add: x2_def x1_def i)
    have fo1: "forest db1" unfolding db1_def
      by (rule forest_update_same [OF Cons.prems(2) i(2)]) (simp add: x2_def x1_def)
    have "i < next_id db" using Cons.prems(1) i(2) by (simp add: table_ok_def)
    then have nid1: "next_id db1 = next_id db" by (simp add: db1_def max_def)
    have st1: "\<forall>y\<in>set xs. stored db1 y"
    proof
      fix y assume y: "y \<in> set xs"
      with xs_stored obtain j where j: "pk y = Some j" "rows db j = Some y"
        by (auto simp: stored_def)
      from y x_notin have "pk y \<noteq> pk x" by (metis imageI)
      with j i have "j \<noteq> i" by auto
      with j show "stored db1 y" by (auto simp: stored_def db1_def)
    qed
    from Cons.IH [OF ok1 fo1 st1 xs_dist] obtain db' where
      db': "set_slug_loop urls s n db1 xs = Some (Inr (), db')"
        "table_ok db'" "forest db'" "next_id db' = next_id db1"
        "\<forall>i. rows db1 i = None \<longrightarrow> rows db' i = None"
        "\<forall>i r. rows db1 i = Some r \<longrightarrow>
              (if r \<in> set xs \<and> \<not> overridden urls r
               then \<exists>t. rows db' i = Some (r\<lparr>slug := n @ drop (length s) (slug r), titles := t\<rparr>)
               else rows db' i = Some r)"
        "\<exists>ys. saved db' = saved db1 @ ys \<and>
              list_all2 (\<lambda>r y. \<exists>t. y = r\<lparr>slug := n @ drop (length s) (slug r), titles := t\<rparr>)
                (filter (\<lambda>r. \<not> overridden urls r) xs) ys"
      by blast
    have run: "set_slug_loop urls s n db (x # xs) = Some (Inr (), db')"
      using False sv db'(1) by (simp add: x1_def Let_def)
    have none: "\<forall>j. rows db j = None \<longrightarrow> rows db' j = None"
    proof (intro allI impI)
      fix j assume "rows db j = None"
      with i(2) have "j \<noteq> i" by auto
      with \<open>rows db j = None\<close> have "rows db1 j = None" by (simp add: db1_def)
      with db'(5) show "rows db' j = None" by simp
    qed
    have x2_notin: "x2 \<notin> set xs"
    proof
      assume "x2 \<in> set xs"
      then have "pk x2 \<in> pk ` set xs" by (rule imageI)
      with x_notin show False by (simp add: x2_def x1_def)
    qed
    have some: "\<forall>j r. rows db j = Some r \<longrightarrow>
              (if r \<in> set (x # xs) \<and> \<not> overridden urls r
               then \<exists>t. rows db' j = Some (r\<lparr>slug := n @ drop (length s) (slug r), titles := t\<rparr>)
               else rows db' j = Some r)"
    proof (intro allI impI)
      fix j r assume r: "rows db j = Some r"
      show "if r \<in> set (x # xs) \<and> \<not> overridden urls r
               then \<exists>t. rows db' j = Some (r\<lparr>slug := n @ drop (length s) (slug r), titles := t\<rparr>)
               else rows db' j = Some r"
      proof (cases "j = i")
        case True
        with r i(2) have rx: "r = x" by simp
        have "rows db1 i = Some x2" by (simp add: db1_def)
        with db'(6) x2_notin have "rows db' i = Some x2" by auto
        with rx True False show ?thesis by (auto simp: x2_def x1_def)
      next
        case ji: False
        with r have "rows db1 j = Some r" by (simp add: db1_def)
        with db'(6) have "if r \<in> set xs \<and> \<not> overridden urls r
               then \<exists>t. rows db' j = Some (r\<lparr>slug := n @ drop (length s) (slug r), titles := t\<rparr>)
               else rows db' j = Some r" by blast
        with other [OF r ji] show ?thesis by simp
      qed
    qed
    from db'(7) obtain ys where ys: "saved db' = saved db1 @ ys"
        "list_all2 (\<lambda>r y. \<exists>t. y = r\<lparr>slug := n @ drop (length s) (slug r), titles := t\<rparr>)
                (filter (\<lambda>r. \<not> overridden urls r) xs) ys" by blast
    have log: "\<exists>ys. saved db' = saved db @ ys \<and>
              list_all2 (\<lambda>r y. \<exists>t. y = r\<lparr>slug := n @ drop (length s) (slug r), titles := t\<rparr>)
                (filter (\<lambda>r. \<not> overridden urls r) (x # xs)) ys"
    proof (intro exI conjI)
      show "saved db' = saved db @ (x2 # ys)" using ys(1) by (simp add: db1_def)
      show "list_all2 (\<lambda>r y. \<exists>t. y = r\<lparr>slug := n @ drop (length s) (slug r), titles := t\<rparr>)
                (filter (\<lambda>r. \<not> overridden urls r) (x # xs)) (x2 # ys)"
        using False ys(2) by (auto simp: x2_def x1_def)
    qed
    from run db'(2,3) db'(4) nid1 none some log show ?thesis by simp
  qed
qed



lemma set_slug_total:
  assumes "table_ok db" "forest db"
  shows "\<exists>db'. set_slug backend urls db p n = Some (Inr (), p\<lparr>slug := n\<rparr>, db') \<and>
           table_ok db' \<and> forest db' \<and> next_id db' = next_id db \<and>
           (\<forall>i. rows db i = None \<longrightarrow> rows db' i = None) \<and>
           (\<forall>i r. rows db i = Some r \<longrightarrow>
              (if startswith_lookup backend (slug p) (slug r) \<and> \<not> overridden urls r
               then \<exists>t. rows db' i = Some (r\<lparr>slug := n @ drop (length (slug p)) (slug r), titles := t\<rparr>)
               else rows db' i = Some r)) \<and>
           (\<exists>ys. saved db' = saved db @ ys \<and>
              list_all2 (\<lambda>r y. \<exists>t. y = r\<lparr>slug := n @ drop (length (slug p)) (slug r), titles := t\<rparr>)
                (filter (\<lambda>r. \<not> overridden urls r) (filter_slug_startswith backend db (slug p))) ys)"
proof -
  let ?pages = "filter_slug_startswith backend db (slug p)"
  have st: "\<forall>x\<in>set ?pages. stored db x"
    using assms(1) by (auto simp: filter_slug_startswith_def all_pages_stored)
  have di: "distinct (map pk ?pages)"
    using all_pages_distinct [OF assms(1)] by (simp add: filter_slug_startswith_def distinct_map_filter)
  from set_slug_loop_total [OF assms st di, of urls "slug p" n] obtain db' where
    db': "set_slug_loop urls (slug p) n db ?pages = Some (Inr (), db')"
      "table_ok db'" "forest db'" "next_id db' = next_id db"
      "\<forall>i. rows db i = None \<longrightarrow> rows db' i = None"
      "\<forall>i r. rows db i = Some r \<longrightarrow>
              (if r \<in> set ?pages \<and> \<not> overridden urls r
               then \<exists>t. rows db' i = Some (r\<lparr>slug := n @ drop (length (slug p)) (slug r), titles := t\<rparr>)
               else rows db' i = Some r)"
      "\<exists>ys. saved db' = saved db @ ys \<and>
              list_all2 (\<lambda>r y. \<exists>t. y = r\<lparr>slug := n @ drop (length (slug p)) (slug r), titles := t\<rparr>)
                (filter (\<lambda>r. \<not> overridden urls r) ?pages) ys"
    by blast
  have mem: "r \<in> set ?pages \<longleftrightarrow> startswith_lookup backend (slug p) (slug r)" if "rows db i = Some r" for i r
    using that assms(1) by (auto simp: filter_slug_startswith_def all_pages_iff)
  have "\<forall>i r. rows db i = Some r \<longrightarrow>
              (if startswith_lookup backend (slug p) (slug r) \<and> \<not> overridden urls r
               then \<exists>t. rows db' i = Some (r\<lparr>slug := n @ drop (length (slug p)) (slug r), titles := t\<rparr>)
               else rows db' i = Some r)"
    using db'(6) mem by simp
  moreover have "set_slug backend urls db p n = Some (Inr (), p\<lparr>slug := n\<rparr>, db')"
    using db'(1) by (simp add: set_slug_def)
  ultimately show ?thesis using db'(2,3,4,5,7) by blast
qed

lemma cycle_check_None: "cycle_check db k None = Some (Inr ())"
  by (subst cycle_check.simps) simp

lemma cycle_check_Some:
  "cycle_check db k (Some par) =
     (if pk par = k then Some (Inl AttributeError)
      else (case get_parent db par of
              Inl e \<Rightarrow> Some (Inl e)
            | Inr nxt \<Rightarrow> cycle_check db k nxt))"
  by (subst cycle_check.simps) simp

lemma cycle_check_chain:
  "chain db q xs \<Longrightarrow>
     cycle_check db k q = Some (if \<exists>x\<in>set xs. pk x = k then Inl AttributeError else Inr ())"
  by (induction rule: chain.induct) (auto simp: cycle_check_None cycle_check_Some)

lemma reaches_trans: "reaches db b c \<Longrightarrow> reaches db a b \<Longrightarrow> reaches db a c"
  by (induction rule: reaches.induct) (auto intro: reaches.intros)

lemma chain_head: "chain db (Some y) xs \<Longrightarrow> y \<in> set xs"
  by (cases rule: chain.cases) auto

lemma chain_parent_closed:
  "chain db q xs \<Longrightarrow> x \<in> set xs \<Longrightarrow> get_parent db x = Inr (Some y) \<Longrightarrow> y \<in> set xs"
  by (induction rule: chain.induct) (auto dest: chain_head)

lemma chain_reaches:
  "chain db q xs \<Longrightarrow> q = Some q' \<Longrightarrow> x \<in> set xs \<Longrightarrow> reaches db q' x"
proof (induction arbitrary: q' rule: chain.induct)
  case chain_root
  then show ?case by simp
next
  case (chain_step y nxt ys)
  then have q': "q' = y" by simp
  show ?case
  proof (cases "x = y")
    case True
    with q' show ?thesis by (simp add: reaches_self)
  next
    case False
    with chain_step.prems have x: "x \<in> set ys" by simp
    with chain_step.hyps(2) obtain z where z: "nxt = Some z" by (cases nxt) (auto elim: chain.cases)
    from chain_step.IH [OF z x] have "reaches db z x" .
    moreover have "reaches db y z" using chain_step.hyps(1) z reaches_parent reaches_self by blast
    ultimately show ?thesis using q' reaches_trans by blast
  qed
qed

lemma reaches_chain:
  "reaches db q x \<Longrightarrow> chain db (Some q) xs \<Longrightarrow> x \<in> set xs"
  by (induction rule: reaches.induct) (auto dest: chain_head chain_parent_closed)

lemma in_ancestor_chain_iff:
  "chain db q xs \<Longrightarrow> in_ancestor_chain db p q \<longleftrightarrow> (\<exists>x\<in>set xs. pk x = pk p)"
  by (cases q) (auto simp: in_ancestor_chain_def dest: reaches_chain chain_reaches elim: chain.cases)

lemma rtrancl_reaches:
  assumes "forest db"
  shows "(a, b) \<in> (parent_rel db)\<^sup>* \<Longrightarrow> rows db b = Some rb \<Longrightarrow>
           \<exists>ra. rows db a = Some ra \<and> reaches db rb ra"
proof (induction arbitrary: rb rule: rtrancl_induct)
  case base
  then show ?case by (auto intro: reaches_self)
next
  case (step y z)
  from step.hyps(2) step.prems have pz: "parent_id rb = Some y" by (auto simp: parent_rel_def)
  from assms step.hyps(2) obtain ry where ry: "rows db y = Some ry" by (fastforce simp: forest_def)
  from step.IH [OF ry] obtain ra where ra: "rows db a = Some ra" "reaches db ry ra" by blast
  have "get_parent db rb = Inr (Some ry)" using pz ry by (simp add: get_parent_def load_def)
  then have "reaches db rb ry" using reaches_parent reaches_self by blast
  with ra show ?case using reaches_trans by blast
qed

lemma table_ok_insert:
  assumes "table_ok db" "pk x = Some k" "k < m" "next_id db \<le> m"
  shows "table_ok (db\<lparr>rows := (rows db)(k \<mapsto> x), next_id := m, saved := l\<rparr>)"
  unfolding table_ok_def
proof (intro allI impI)
  fix j r
  assume r: "rows (db\<lparr>rows := (rows db)(k \<mapsto> x), next_id := m, saved := l\<rparr>) j = Some r"
  show "pk r = Some j \<and> j < next_id (db\<lparr>rows := (rows db)(k \<mapsto> x), next_id := m, saved := l\<rparr>)"
  proof (cases "j = k")
    case True
    with r assms(2,3) show ?thesis by auto
  next
    case False
    with r have "rows db j = Some r" by simp
    with assms(1) have "pk r = Some j \<and> j < next_id db" by (simp add: table_ok_def)
    with assms(4) show ?thesis by simp
  qed
qed

lemma forest_reparent:
  assumes fo: "forest db" and x: "parent_id x = np"
      and np: "\<forall>j. np = Some j \<longrightarrow> rows db j \<noteq> None \<and> (k, j) \<notin> (parent_rel db)\<^sup>*"
  shows "forest (db\<lparr>rows := (rows db)(k \<mapsto> x), next_id := m, saved := l\<rparr>)"
proof -
  let ?db1 = "db\<lparr>rows := (rows db)(k \<mapsto> x), next_id := m, saved := l\<rparr>"
  have fk: "\<forall>(j, i) \<in> parent_rel db. rows db j \<noteq> None" and ac: "acyclic (parent_rel db)"
    using fo by (simp_all add: forest_def)
  have sub: "parent_rel ?db1 \<subseteq> (case np of None \<Rightarrow> {} | Some j \<Rightarrow> {(j, k)}) \<union> parent_rel db"
    using x by (auto simp: parent_rel_def split: if_splits)
  have ac': "acyclic ((case np of None \<Rightarrow> {} | Some j \<Rightarrow> {(j, k)}) \<union> parent_rel db)"
  proof (cases np)
    case None
    then show ?thesis using ac by simp
  next
    case (Some j)
    with np have "(k, j) \<notin> (parent_rel db)\<^sup>*" by simp
    with ac Some show ?thesis by (simp add: acyclic_insert)
  qed
  have "acyclic (parent_rel ?db1)" using ac' sub by (rule acyclic_subset)
  have "rows ?db1 j \<noteq> None" if ji: "(j, i) \<in> parent_rel ?db1" for j i
  proof
    assume no: "rows ?db1 j = None"
    from no have jk: "j \<noteq> k" and noj: "rows db j = None" by (auto split: if_splits)
    from ji sub have "(j, i) \<in> (case np of None \<Rightarrow> {} | Some j \<Rightarrow> {(j, k)}) \<union> parent_rel db" by blast
    then show False
    proof
      assume "(j, i) \<in> (case np of None \<Rightarrow> {} | Some j \<Rightarrow> {(j, k)})"
      then have "np = Some j" by (auto split: option.splits)
      with np noj show False by simp
    next
      assume "(j, i) \<in> parent_rel db"
      with fk noj show False by auto
    qed
  qed
  then have "\<forall>(j, i) \<in> parent_rel ?db1. rows ?db1 j \<noteq> None" by blast
  moreover note \<open>acyclic (parent_rel ?db1)\<close>
  ultimately show ?thesis by (simp add: forest_def)
qed

lemma save_chain_general:
  assumes "chain db parent xs"
  shows "\<exists>k x3 m. save object_name db x (Inr parent) =
             Some (Inr (), x3, db\<lparr>rows := (rows db)(k \<mapsto> x3), next_id := m, saved := saved db @ [x3]\<rparr>) \<and>
           pk x3 = Some k \<and> parent_id x3 = parent_id x \<and> slug x3 = slug x \<and> title x3 = title x \<and>
           titles x3 = Some (join '' / '' (map title (rev xs) @ [title x])) \<and>
           k < m \<and> next_id db \<le> m \<and>
           (case pk x of None \<Rightarrow> k = next_id db \<and> content_model x3 = Some (lower object_name)
                       | Some i \<Rightarrow> k = i \<and> content_model x3 = content_model x)"
proof (cases "pk x")
  case None
  let ?x3 = "x\<lparr>content_model := Some (lower object_name),
               titles := Some (join '' / '' (map title (rev xs) @ [title x])),
               pk := Some (next_id db)\<rparr>"
  have "save object_name db x (Inr parent) =
          Some (Inr (), ?x3, db\<lparr>rows := (rows db)(next_id db \<mapsto> ?x3), next_id := Suc (next_id db),
                                  saved := saved db @ [?x3]\<rparr>)"
    using None titles_loop_chain [OF assms] by (simp add: save_def base_save_def Let_def)
  then show ?thesis using None
    by (intro exI [of _ "next_id db"] exI [of _ ?x3] exI [of _ "Suc (next_id db)"]) simp
next
  case (Some i)
  let ?x3 = "x\<lparr>titles := Some (join '' / '' (map title (rev xs) @ [title x]))\<rparr>"
  have "save object_name db x (Inr parent) =
          Some (Inr (), ?x3, db\<lparr>rows := (rows db)(i \<mapsto> ?x3), next_id := max (next_id db) (Suc i),
                                  saved := saved db @ [?x3]\<rparr>)"
    using Some titles_loop_chain [OF assms] by (simp add: save_def base_save_def Let_def)
  then show ?thesis using Some
    by (intro exI [of _ i] exI [of _ ?x3] exI [of _ "max (next_id db) (Suc i)"]) (simp add: max_def)
qed

lemma set_slug_keeps:
  assumes "table_ok db" "forest db" "rows db k = Some x"
  shows "\<exists>db'. set_slug backend urls db p n = Some (Inr (), p\<lparr>slug := n\<rparr>, db') \<and>
           table_ok db' \<and> forest db' \<and>
           (\<exists>r. rows db' k = Some r \<and> parent_id r = parent_id x \<and> pk r = pk x) \<and>
           (\<exists>ys. saved db' = saved db @ ys)"
proof -
  from set_slug_total [OF assms(1,2), of backend urls p n] obtain db' where
    db': "set_slug backend urls db p n = Some (Inr (), p\<lparr>slug := n\<rparr>, db')"
      "table_ok db'" "forest db'"
      "\<forall>i r. rows db i = Some r \<longrightarrow>
              (if startswith_lookup backend (slug p) (slug r) \<and> \<not> overridden urls r
               then \<exists>t. rows db' i = Some (r\<lparr>slug := n @ drop (length (slug p)) (slug r), titles := t\<rparr>)
               else rows db' i = Some r)"
      "\<exists>ys. saved db' = saved db @ ys"
    by blast
  from db'(4) assms(3) have "if startswith_lookup backend (slug p) (slug x) \<and> \<not> overridden urls x
               then \<exists>t. rows db' k = Some (x\<lparr>slug := n @ drop (length (slug p)) (slug x), titles := t\<rparr>)
               else rows db' k = Some x" by blast
  then have "\<exists>r. rows db' k = Some r \<and> parent_id r = parent_id x \<and> pk r = pk x"
    by (auto split: if_splits)
  with db'(1,2,3,5) show ?thesis by blast
qed

lemma set_parent_outcome:
  assumes ok: "table_ok db" and fo: "forest db"
      and q: "\<forall>q'. q = Some q' \<longrightarrow> stored db q'"
      and old: "get_parent db p = Inr old"
  shows "if in_ancestor_chain db p q
         then set_parent object_name backend urls db p q = Some (Inl AttributeError, p, db)
         else \<exists>p' db' k. set_parent object_name backend urls db p q = Some (Inr (), p', db') \<and>
                table_ok db' \<and> forest db' \<and> pk p' = Some k \<and>
                (case pk p of None \<Rightarrow> k = next_id db | Some i \<Rightarrow> k = i) \<and>
                parent_id p' = (case q of None \<Rightarrow> None | Some q' \<Rightarrow> pk q') \<and>
                (\<exists>r. rows db' k = Some r \<and> parent_id r = (case q of None \<Rightarrow> None | Some q' \<Rightarrow> pk q')) \<and>
                (\<exists>x\<in>set (drop (length (saved db)) (saved db')).
                    pk x = Some k \<and> parent_id x = (case q of None \<Rightarrow> None | Some q' \<Rightarrow> pk q'))"
proof -
  define np where "np = (case q of None \<Rightarrow> None | Some q' \<Rightarrow> pk q')"
  obtain xs where ch: "chain db q xs"
  proof (cases q)
    case None
    then show ?thesis using chain_root that by blast
  next
    case (Some q')
    with q chain_exists_stored [OF ok fo] that show ?thesis by blast
  qed
  note cc = cycle_check_chain [OF ch, of "pk p"]
  note iff = in_ancestor_chain_iff [OF ch, of p]
  show ?thesis
  proof (cases "in_ancestor_chain db p q")
    case True
    with iff cc old show ?thesis by (simp add: set_parent_def)
  next
    case False
    with iff cc have cc': "cycle_check db (pk p) q = Some (Inr ())" by simp
    from save_chain_general [OF ch, of object_name "p\<lparr>parent_id := np\<rparr>"] obtain k x3 m where
      sv: "save object_name db (p\<lparr>parent_id := np\<rparr>) (Inr q) =
             Some (Inr (), x3, db\<lparr>rows := (rows db)(k \<mapsto> x3), next_id := m, saved := saved db @ [x3]\<rparr>)"
      and x3: "pk x3 = Some k" "parent_id x3 = np" "k < m" "next_id db \<le> m"
      and kk: "case pk p of None \<Rightarrow> k = next_id db | Some i \<Rightarrow> k = i"
      by (auto split: option.splits)
    define db1 where "db1 = db\<lparr>rows := (rows db)(k \<mapsto> x3), next_id := m, saved := saved db @ [x3]\<rparr>"
    have ok1: "table_ok db1" unfolding db1_def using ok x3(1,3,4) by (rule table_ok_insert)
    have np_ok: "\<forall>j. np = Some j \<longrightarrow> rows db j \<noteq> None \<and> (k, j) \<notin> (parent_rel db)\<^sup>*"
    proof (intro allI impI)
      fix j assume j: "np = Some j"
      then obtain q' where q': "q = Some q'" "pk q' = Some j"
        by (auto simp: np_def split: option.splits)
      with q have rq: "rows db j = Some q'" by (auto simp: stored_def)
      have "(k, j) \<notin> (parent_rel db)\<^sup>*"
      proof
        assume "(k, j) \<in> (parent_rel db)\<^sup>*"
        from rtrancl_reaches [OF fo this rq] obtain ra where
          ra: "rows db k = Some ra" "reaches db q' ra" by blast
        from ra(1) ok have pra: "pk ra = Some k" "k < next_id db" by (auto simp: table_ok_def)
        show False
        proof (cases "pk p")
          case None
          with kk pra(2) show False by simp
        next
          case (Some i)
          with kk pra(1) have "pk ra = pk p" by simp
          with ra(2) q'(1) have "in_ancestor_chain db p q" by (auto simp: in_ancestor_chain_def)
          with False show False by simp
        qed
      qed
      with rq show "rows db j \<noteq> None \<and> (k, j) \<notin> (parent_rel db)\<^sup>*" by simp
    qed
    have fo1: "forest db1" unfolding db1_def using fo x3(2) np_ok by (rule forest_reparent)
    have row1: "rows db1 k = Some x3" by (simp add: db1_def)
    have log1: "saved db1 = saved db @ [x3]" by (simp add: db1_def)
    let ?post = "\<lambda>p' db'. table_ok db' \<and> forest db' \<and> pk p' = Some k \<and>
                (case pk p of None \<Rightarrow> k = next_id db | Some i \<Rightarrow> k = i) \<and> parent_id p' = np \<and>
                (\<exists>r. rows db' k = Some r \<and> parent_id r = np) \<and>
                (\<exists>x\<in>set (drop (length (saved db)) (saved db')). pk x = Some k \<and> parent_id x = np)"
    have direct: "?post x3 db1" using ok1 fo1 x3 kk row1 log1 by simp
    have via: "\<exists>p' db'. set_slug backend urls db1 x3 n = Some (Inr (), p', db') \<and> ?post p' db'" for n
    proof -
      from set_slug_keeps [OF ok1 fo1 row1, of backend urls x3 n] obtain db' ys where
        db': "set_slug backend urls db1 x3 n = Some (Inr (), x3\<lparr>slug := n\<rparr>, db')"
          "table_ok db'" "forest db'"
          "\<exists>r. rows db' k = Some r \<and> parent_id r = parent_id x3 \<and> pk r = pk x3"
          "saved db' = saved db1 @ ys" by blast
      have "x3 \<in> set (drop (length (saved db)) (saved db'))" using db'(5) log1 by simp
      with x3 have "\<exists>x\<in>set (drop (length (saved db)) (saved db')). pk x = Some k \<and> parent_id x = np"
        by blast
      with db' x3 kk show ?thesis by auto
    qed
    have sp: "set_parent object_name backend urls db p q =
        (if slug p \<noteq> [] then
           if (case old of Some p \<Rightarrow> slug p | None \<Rightarrow> []) = [] then
             set_slug backend urls db1 x3 (join ''/'' [case q of Some p \<Rightarrow> slug p | None \<Rightarrow> [], slug x3])
           else if prefix (case old of Some p \<Rightarrow> slug p | None \<Rightarrow> []) (slug x3) then
             set_slug backend urls db1 x3
               (strip (CHR ''/'') (replace_first (case old of Some p \<Rightarrow> slug p | None \<Rightarrow> [])
                   (case q of Some p \<Rightarrow> slug p | None \<Rightarrow> []) (slug x3)))
           else Some (Inr (), x3, db1)
         else Some (Inr (), x3, db1))"
      using old cc' sv by (simp add: set_parent_def np_def db1_def Let_def)
    have "\<exists>p' db'. set_parent object_name backend urls db p q = Some (Inr (), p', db') \<and> ?post p' db'"
      unfolding sp using direct via by (simp split: if_splits)
    then show ?thesis using False unfolding np_def by auto
  qed
qed

lemma get_parent_error: "get_parent db x = Inl e \<Longrightarrow> e = DoesNotExist"
  by (auto simp: get_parent_def load_def split: option.splits)

lemma titles_loop_error_aux:
  assumes "titles_loop db parent ts = Some y"
  shows "\<forall>e. y = Inl e \<longrightarrow> e = DoesNotExist"
  by (rule titles_loop.raw_induct [OF _ assms])
     (auto split: option.splits sum.splits dest: get_parent_error)

lemma titles_loop_error: "titles_loop db parent ts = Some (Inl e) \<Longrightarrow> e = DoesNotExist"
  using titles_loop_error_aux by blast

lemma save_error:
  assumes "save object_name db x par = Some (Inl e, x', db')" "\<forall>e'. par = Inl e' \<longrightarrow> e' = DoesNotExist"
  shows "e = DoesNotExist"
  using assms
  by (auto simp: save_def Let_def split: sum.splits option.splits prod.splits dest: titles_loop_error)

lemma set_slug_loop_error:
  "set_slug_loop urls s n db pages = Some (Inl e, db') \<Longrightarrow> e = DoesNotExist"
proof (induction pages arbitrary: db)
  case Nil
  then show ?case by simp
next
  case (Cons x xs)
  show ?case
  proof (cases "overridden urls x")
    case True
    with Cons show ?thesis by simp
  next
    case False
    let ?x1 = "x\<lparr>slug := n @ drop (length s) (slug x)\<rparr>"
    from False Cons.prems obtain out x2 db1 where
      sv: "save ''Page'' db ?x1 (get_parent db ?x1) = Some (out, x2, db1)"
      by (auto simp: Let_def split: option.splits)
    show ?thesis
    proof (cases out)
      case (Inl e')
      with sv False Cons.prems have "e' = e" by (simp add: Let_def)
      with sv Inl show ?thesis using save_error get_parent_error by blast
    next
      case (Inr u)
      with sv False Cons.prems have "set_slug_loop urls s n db1 xs = Some (Inl e, db')"
        by (simp add: Let_def)
      then show ?thesis by (rule Cons.IH)
    qed
  qed
qed

lemma set_slug_error: "set_slug backend urls db p n = Some (Inl e, p', db') \<Longrightarrow> e = DoesNotExist"
  by (auto simp: set_slug_def split: option.splits sum.splits prod.splits dest: set_slug_loop_error)

lemma lower_RichTextPage: "lower ''RichTextPage'' = ''richtextpage''"
  by code_simp

lemma site_rows:
  "rows site_db (Suc 0) = Some site_about" "rows site_db 2 = Some site_team"
  "rows site_db 3 = Some site_mike" "rows site_db 4 = Some site_blog"
  by (simp_all add: site_db_def)

lemma site_parents:
  "get_parent site_db site_about = Inr None" "get_parent site_db site_team = Inr (Some site_about)"
  "get_parent site_db site_mike = Inr (Some site_team)" "get_parent site_db site_blog = Inr None"
  by (simp_all add: get_parent_def load_def site_rows site_about_def site_team_def site_mike_def
      site_blog_def)

lemma site_chain_about: "chain site_db (Some site_about) [site_about]"
  using site_parents(1) chain_root by (rule chain_step)

lemma site_chain_team: "chain site_db (Some site_team) [site_team, site_about]"
  using site_parents(2) site_chain_about by (rule chain_step)

lemma site_chain_mike: "chain site_db (Some site_mike) [site_mike, site_team, site_about]"
  using site_parents(3) site_chain_team by (rule chain_step)

lemma site_chain_blog: "chain site_db (Some site_blog) [site_blog]"
  using site_parents(4) chain_root by (rule chain_step)

lemma join_snoc: "xs \<noteq> [] \<Longrightarrow> join sep (xs @ [x]) = join sep xs @ sep @ x"
  by (induction sep xs rule: join.induct) auto

lemma get_slug_chain:
  "chain db q xs \<Longrightarrow> q = Some self \<Longrightarrow>
   (\<forall>a\<in>set (tl xs). get_slug slugify db a = Inr (slug a)) \<Longrightarrow>
     get_slug slugify db self = Inr (join ''/'' (map (\<lambda>a. slugify (title a)) (rev xs)))"
proof (induction arbitrary: self rule: chain.induct)
  case chain_root
  then show ?case by simp
next
  case (chain_step x nxt xs)
  then have self: "self = x" by simp
  show ?case
  proof (cases nxt)
    case None
    with chain_step.hyps(2) have "xs = []" by (auto elim: chain.cases)
    with None chain_step.hyps(1) self show ?thesis by (simp add: get_slug_def)
  next
    case (Some y)
    with chain_step.hyps(2) obtain ys where ys: "xs = y # ys" by (auto elim: chain.cases)
    have "\<forall>a\<in>set (tl xs). get_slug slugify db a = Inr (slug a)"
      using chain_step.prems(2) ys by simp
    from chain_step.IH [OF Some this]
    have "get_slug slugify db y = Inr (join ''/'' (map (\<lambda>a. slugify (title a)) (rev xs)))" .
    moreover have "get_slug slugify db y = Inr (slug y)" using chain_step.prems(2) ys by simp
    ultimately have sy: "slug y = join ''/'' (map (\<lambda>a. slugify (title a)) (rev xs))" by simp
    have gx: "get_slug slugify db x = Inr (slug y @ ''/'' @ slugify (title x))"
      using chain_step.hyps(1) Some by (simp add: get_slug_def)
    have ne: "map (\<lambda>a. slugify (title a)) (rev xs) \<noteq> []" using ys by simp
    have "map (\<lambda>a. slugify (title a)) (rev (x # xs))
            = map (\<lambda>a. slugify (title a)) (rev xs) @ [slugify (title x)]" by simp
    then have "join ''/'' (map (\<lambda>a. slugify (title a)) (rev (x # xs)))
            = join ''/'' (map (\<lambda>a. slugify (title a)) (rev xs)) @ ''/'' @ slugify (title x)"
      using join_snoc [OF ne] by (simp only:)
    with gx sy self show ?thesis by (simp only:)
  qed
qed

lemma lower_site_titles:
  "lower ''About'' = ''about''" "lower ''Team'' = ''team''" "lower ''Mike'' = ''mike''"
  by code_simp+

lemma forest_parents_older:
  assumes "\<forall>i r j. rows db i = Some r \<and> parent_id r = Some j \<longrightarrow> j < i \<and> rows db j \<noteq> None"
  shows "forest db"
proof -
  have "parent_rel db \<subseteq> less_than" using assms by (auto simp: parent_rel_def)
  moreover have "acyclic less_than" by (simp add: wf_acyclic)
  ultimately have "acyclic (parent_rel db)" by (rule acyclic_subset [rotated])
  moreover have "\<forall>(j, i) \<in> parent_rel db. rows db j \<noteq> None"
    using assms by (auto simp: parent_rel_def)
  ultimately show ?thesis by (simp add: forest_def)
qed

lemma site_table_ok: "table_ok site_db"
  by (auto simp: table_ok_def site_db_def site_about_def site_team_def site_mike_def site_blog_def
      split: if_splits)

lemma site_forest: "forest site_db"
  by (rule forest_parents_older)
     (auto simp: site_db_def site_about_def site_team_def site_mike_def site_blog_def
      split: if_splits)

lemma site_stored: "stored site_db site_about" "stored site_db site_team"
  "stored site_db site_mike" "stored site_db site_blog"
  by (simp_all add: stored_def site_rows site_about_def site_team_def site_mike_def site_blog_def)

lemma site_about_in_chain_mike: "in_ancestor_chain site_db site_about (Some site_mike)"
  using in_ancestor_chain_iff [OF site_chain_mike, of site_about] by simp

lemma site_set_parent_cycle:
  "set_parent ''Page'' CaseSensitive site_urls site_db site_about (Some site_mike)
     = Some (Inl AttributeError, site_about, site_db)"
  using set_parent_outcome [OF site_table_ok site_forest _ site_parents(1),
      of "Some site_mike" "''Page''" CaseSensitive site_urls] site_stored(3) site_about_in_chain_mike
  by simp

lemma site_mike_not_in_chain_blog: "\<not> in_ancestor_chain site_db site_mike (Some site_blog)"
  using in_ancestor_chain_iff [OF site_chain_blog, of site_mike]
  by (simp add: site_mike_def site_blog_def)

lemma ascend_None: "parent_id child = None \<Longrightarrow> ascend db child acc = Some (Inr acc)"
  by (subst ascend.simps) simp

lemma ascend_Some:
  "parent_id child = Some i \<Longrightarrow>
     ascend db child acc =
       (case load db i of Inl e \<Rightarrow> Some (Inl e) | Inr par \<Rightarrow> ascend db par (acc @ [par]))"
  by (subst ascend.simps) simp

lemma get_parent_None: "get_parent db x = Inr None \<Longrightarrow> parent_id x = None"
  by (auto simp: get_parent_def split: option.splits sum.splits)

lemma get_parent_Some:
  "get_parent db x = Inr (Some y) \<Longrightarrow> \<exists>i. parent_id x = Some i \<and> load db i = Inr y"
  by (auto simp: get_parent_def split: option.splits sum.splits)

lemma ascend_chain:
  "chain db q xs \<Longrightarrow> q = Some c \<Longrightarrow> ascend db c acc = Some (Inr (acc @ tl xs))"
proof (induction arbitrary: c acc rule: chain.induct)
  case chain_root
  then show ?case by simp
next
  case (chain_step x nxt xs)
  then have c: "c = x" by simp
  show ?case
  proof (cases nxt)
    case None
    with chain_step.hyps(2) have "xs = []" by (auto elim: chain.cases)
    moreover have "parent_id x = None" using chain_step.hyps(1) None by (simp add: get_parent_None)
    ultimately show ?thesis using c by (simp add: ascend_None)
  next
    case (Some y)
    with chain_step.hyps(2) obtain ys where ys: "xs = y # ys" by (auto elim: chain.cases)
    from chain_step.hyps(1) Some obtain i where i: "parent_id x = Some i" "load db i = Inr y"
      using get_parent_Some by blast
    have "ascend db x acc = ascend db y (acc @ [y])" using i by (simp add: ascend_Some)
    also have "\<dots> = Some (Inr ((acc @ [y]) @ tl xs))" using Some by (rule chain_step.IH)
    finally show ?thesis using c ys by simp
  qed
qed

lemma set_filter_groups_name:
  "set (filter_groups_name name us) = {u \<in> set us. \<exists>g\<in>set (groups u). group_name g = name}"
  by (auto simp: filter_groups_name_def list_ex_iff)

lemma set_filter_groups:
  "set (filter_groups og us) = {u \<in> set us. \<exists>g\<in>set (groups u). group_pk g = group_pk og}"
  by (auto simp: filter_groups_def list_ex_iff)

lemma site_env_publishers:
  "{u \<in> set (users site_env). (\<exists>g\<in>set (groups u). group_name g = ''Publisher'') \<and>
       (\<exists>g\<in>set (groups u). group_pk g = group_pk (the (owning_group sports_draft)))} = {user_alice}"
  by (auto simp: site_env_def sports_draft_def user_alice_def user_bob_def user_carol_def
      desk_publisher_def desk_author_def desk_sports_def)

section \<open>Properties\<close>

text \<open>
  C8. For a draft item, \<^verbatim>\<open>current_status\<close> is ("pending", "Pending approval") when
  approval equals PENDING, ("rejected", "Rejected") when approval equals REJECTED and
  ("draft", "Draft") otherwise; for a non-draft item it is a "published" status when
  publish_date is before the current time and an "approved" (to be published) status
  otherwise.
\<close>

theorem current_status_cases:
  "(status self = draft \<longrightarrow>
      (approval self = Some PENDING \<longrightarrow>
         current_status draft localize now self = (''pending'', ''Pending approval'')) \<and>
      (approval self = Some REJECTED \<longrightarrow>
         current_status draft localize now self = (''rejected'', ''Rejected'')) \<and>
      (approval self \<noteq> Some PENDING \<and> approval self \<noteq> Some REJECTED \<longrightarrow>
         current_status draft localize now self = (''draft'', ''Draft''))) \<and>
   (status self \<noteq> draft \<longrightarrow>
      (publish_date self < now \<longrightarrow>
         current_status draft localize now self =
           (''published'', ''Approved, published on '' @ localize (publish_date self))) \<and>
      (\<not> publish_date self < now \<longrightarrow>
         current_status draft localize now self =
           (''approved'', ''Approved, to be published on '' @ localize (publish_date self))))"
  by (simp add: current_status_def PENDING_def REJECTED_def)

theorem current_status_cases_witness:
  "current_status 1 (\<lambda>d. ''day'') 50
      \<lparr>status = 1, approval = Some 1, publish_date = 10, owning_group = None\<rparr>
     = (''pending'', ''Pending approval'') \<and>
   current_status 1 (\<lambda>d. ''day'') 50
      \<lparr>status = 1, approval = Some 3, publish_date = 10, owning_group = None\<rparr>
     = (''rejected'', ''Rejected'') \<and>
   current_status 1 (\<lambda>d. ''day'') 50
      \<lparr>status = 1, approval = None, publish_date = 10, owning_group = None\<rparr>
     = (''draft'', ''Draft'') \<and>
   current_status 1 (\<lambda>d. ''day'') 50
      \<lparr>status = 2, approval = Some 2, publish_date = 10, owning_group = None\<rparr>
     = (''published'', ''Approved, published on day'') \<and>
   current_status 1 (\<lambda>d. ''day'') 50
      \<lparr>status = 2, approval = Some 2, publish_date = 90, owning_group = None\<rparr>
     = (''approved'', ''Approved, to be published on day'')"
  using
    current_status_cases [of "\<lparr>status = 1, approval = Some 1, publish_date = 10, owning_group = None\<rparr>" 1 "\<lambda>d. ''day''" 50]
    current_status_cases [of "\<lparr>status = 1, approval = Some 3, publish_date = 10, owning_group = None\<rparr>" 1 "\<lambda>d. ''day''" 50]
    current_status_cases [of "\<lparr>status = 1, approval = None, publish_date = 10, owning_group = None\<rparr>" 1 "\<lambda>d. ''day''" 50]
    current_status_cases [of "\<lparr>status = 2, approval = Some 2, publish_date = 10, owning_group = None\<rparr>" 1 "\<lambda>d. ''day''" 50]
    current_status_cases [of "\<lparr>status = 2, approval = Some 2, publish_date = 90, owning_group = None\<rparr>" 1 "\<lambda>d. ''day''" 50]
  by (simp add: PENDING_def REJECTED_def)

text \<open>
  C6. \<^verbatim>\<open>Page.save\<close> sets \<^verbatim>\<open>titles\<close> to the titles of the pages along the
  parent chain, from the root ancestor down to the page itself, joined by " / ", and on
  the first save only (the primary key is unset) sets \<^verbatim>\<open>content_model\<close> to the
  lowercased model name; the record is then stored. Here \<open>xs\<close> is the chain of
  parents, the immediate parent first.
\<close>

theorem save_titles:
  assumes "chain db parent xs"
  shows "\<exists>self' db'.
           save object_name db self (Inr parent) = Some (Inr (), self', db') \<and>
           titles self' = Some (join '' / '' (map title (rev xs) @ [title self])) \<and>
           content_model self' = (if pk self = None then Some (lower object_name) else content_model self) \<and>
           stored db' self' \<and> saved db' = saved db @ [self']"
  using titles_loop_chain [OF assms]
  by (auto simp: save_def base_save_def Let_def stored_def split: option.splits)

theorem save_titles_witness:
  "chain site_db (Some site_team) [site_team, site_about] \<and>
   (\<exists>self' db'.
       save ''RichTextPage'' site_db
         \<lparr>pk = None, title = ''Ann'', slug = ''about/team/ann'', parent_id = Some 2,
          titles = None, content_model = None\<rparr> (Inr (Some site_team)) = Some (Inr (), self', db') \<and>
       titles self' = Some ''About / Team / Ann'' \<and>
       content_model self' = Some ''richtextpage'' \<and>
       stored db' self' \<and> saved db' = saved site_db @ [self'])"
  using site_chain_team
    save_titles [OF site_chain_team, of "''RichTextPage''"
      "\<lparr>pk = None, title = ''Ann'', slug = ''about/team/ann'', parent_id = Some 2,
          titles = None, content_model = None\<rparr>"]
  by (simp add: lower_RichTextPage site_team_def site_about_def)

text \<open>
  C4. \<^verbatim>\<open>Page.get_slug\<close> returns \<^verbatim>\<open>slugify(title)\<close> for a page without parent, and
  the parent's slug, "/" and \<^verbatim>\<open>slugify(title)\<close> for a page with a parent. So, when
  the slug of every ancestor is the one \<^verbatim>\<open>get_slug\<close> gives it, the slug is built
  from the slugified titles along the chain of parents, the root first.
\<close>

theorem get_slug_cases:
  "(parent_id self = None \<longrightarrow> get_slug slugify db self = Inr (slugify (title self))) \<and>
   (\<forall>i parent. parent_id self = Some i \<and> rows db i = Some parent \<longrightarrow>
      get_slug slugify db self = Inr (slug parent @ ''/'' @ slugify (title self))) \<and>
   (\<forall>xs. chain db (Some self) xs \<and> (\<forall>a\<in>set (tl xs). get_slug slugify db a = Inr (slug a)) \<longrightarrow>
      get_slug slugify db self = Inr (join ''/'' (map (\<lambda>a. slugify (title a)) (rev xs))))"
  using get_slug_chain [of db "Some self" _ self slugify]
  by (simp add: get_slug_def get_parent_def load_def)

theorem get_slug_cases_witness:
  "parent_id site_about = None \<and> get_slug lower site_db site_about = Inr ''about'' \<and>
   parent_id site_mike = Some 2 \<and> rows site_db 2 = Some site_team \<and>
   get_slug lower site_db site_mike = Inr ''about/team/mike'' \<and>
   chain site_db (Some site_mike) [site_mike, site_team, site_about] \<and>
   get_slug lower site_db site_team = Inr (slug site_team) \<and>
   get_slug lower site_db site_about = Inr (slug site_about) \<and>
   get_slug lower site_db site_mike = Inr (join ''/'' [''about'', ''team'', ''mike''])"
proof -
  have a: "parent_id site_about = None" by (simp add: site_about_def)
  have m: "parent_id site_mike = Some 2" by (simp add: site_mike_def)
  have t: "parent_id site_team = Some (Suc 0)" by (simp add: site_team_def)
  from get_slug_cases [of site_about lower site_db] a
  have ga: "get_slug lower site_db site_about = Inr ''about''"
    by (simp add: site_about_def lower_site_titles)
  from get_slug_cases [of site_team lower site_db] t site_rows(1)
  have gt: "get_slug lower site_db site_team = Inr ''about/team''"
    by (simp add: site_about_def site_team_def lower_site_titles)
  from get_slug_cases [of site_mike lower site_db] m site_rows(2)
  have gm: "get_slug lower site_db site_mike = Inr ''about/team/mike''"
    by (simp add: site_mike_def site_team_def lower_site_titles)
  have anc: "\<forall>a\<in>set (tl [site_mike, site_team, site_about]). get_slug lower site_db a = Inr (slug a)"
    using ga gt by (simp add: site_about_def site_team_def)
  from get_slug_cases [of site_mike lower site_db] site_chain_mike anc
  have "get_slug lower site_db site_mike
          = Inr (join ''/'' (map (\<lambda>a. lower (title a)) (rev [site_mike, site_team, site_about])))"
    by blast
  then have gj: "get_slug lower site_db site_mike = Inr (join ''/'' [''about'', ''team'', ''mike''])"
    by (simp add: site_about_def site_team_def site_mike_def lower_site_titles)
  show ?thesis using a m site_rows(2) ga gt gm gj site_chain_mike
    by (simp add: site_about_def site_team_def)
qed









lemma upt_0_3: "[0..<3] = [0, Suc 0, 2]"
  by code_simp


text \<open>
  C9. If \<^verbatim>\<open>Page.set_parent(p, q)\<close> raises the cycle error, \<open>p\<close> is as before the
  call (its parent and its slug are unchanged) and so is the table: no page has been
  saved.
\<close>

theorem set_parent_cycle_error_no_change:
  assumes "set_parent object_name backend urls db p q = Some (Inl AttributeError, p', db')"
  shows "p' = p \<and> parent_id p' = parent_id p \<and> slug p' = slug p \<and> db' = db \<and> saved db' = saved db"
proof (cases "get_parent db p")
  case (Inl e)
  with assms show ?thesis by (simp add: set_parent_def)
next
  case (Inr old)
  show ?thesis
  proof (cases "cycle_check db (pk p) q")
    case None
    with assms Inr show ?thesis by (simp add: set_parent_def)
  next
    case (Some c)
    show ?thesis
    proof (cases c)
      case (Inl e)
      with assms Inr Some show ?thesis by (simp add: set_parent_def)
    next
      case Inr2: (Inr u)
      let ?p1 = "p\<lparr>parent_id := (case q of Some p \<Rightarrow> pk p | None \<Rightarrow> None)\<rparr>"
      from assms Inr Some Inr2 obtain out p2 db1 where
        sv: "save object_name db ?p1 (Inr q) = Some (out, p2, db1)"
        by (auto simp: set_parent_def Let_def split: option.splits)
      show ?thesis
      proof (cases out)
        case (Inl e)
        with assms Inr Some Inr2 sv have "e = AttributeError" by (simp add: set_parent_def Let_def)
        moreover from sv Inl have "e = DoesNotExist" using save_error by blast
        ultimately show ?thesis by simp
      next
        case Inr3: (Inr u')
        from assms Inr Some Inr2 sv Inr3 have
          "(\<exists>n. set_slug backend urls db1 p2 n = Some (Inl AttributeError, p', db'))"
          by (auto simp: set_parent_def Let_def split: if_splits)
        then show ?thesis using set_slug_error by blast
      qed
    qed
  qed
qed

theorem set_parent_cycle_error_no_change_witness:
  "set_parent ''Page'' CaseSensitive site_urls site_db site_about (Some site_mike)
     = Some (Inl AttributeError, site_about, site_db) \<and>
   parent_id site_about = None \<and> slug site_about = ''about'' \<and> saved site_db = []"
  using set_parent_cycle_error_no_change [OF site_set_parent_cycle] site_set_parent_cycle
  by (simp add: site_about_def site_db_def)

lemma stale_candidate_call:
  "set_parent ''Page'' CaseSensitive site_urls news_db blog_page (Some news_page_stale)
     = Some (Inr (),
             blog_page\<lparr>parent_id := Some 2, titles := Some ''News / Blog'', slug := ''news/blog''\<rparr>,
             news_db\<lparr>rows := (rows news_db)
                             (1 \<mapsto> blog_page\<lparr>parent_id := Some 2, titles := Some ''News / Blog''\<rparr>),
                     saved := [blog_page\<lparr>parent_id := Some 2, titles := Some ''News / Blog''\<rparr>]\<rparr>)"
  by (simp add: set_parent_def get_parent_def load_def cycle_check_Some cycle_check_None
      save_def titles_loop_Some titles_loop_None base_save_def set_slug_def
      filter_slug_startswith_def startswith_lookup_def all_pages_def upt_0_3 List.map_filter_simps
      overridden_def site_urls_def
      blog_page_def news_page_def news_page_stale_def news_db_def)

text \<open>
  C1, as amended. Let the table be well-formed with its pages forming a forest, let the candidate
  parent \<open>q\<close> be none or a stored page, and let the current parent pointer of \<open>p\<close>
  be null or lead to a stored page. Then \<^verbatim>\<open>Page.set_parent(p, q)\<close> raises an error
  if and only if \<open>p\<close> occurs in the ancestor chain of \<open>q\<close> (\<open>q\<close> or a page met
  by following the parents of \<open>q\<close> has the primary key of \<open>p\<close>). When it does not
  raise, it returns, the parent of \<open>p\<close> is \<open>q\<close>, in the object and in the stored
  row, and \<open>p\<close> has been saved with that parent, under its own key (a new one when
  it had none).
\<close>

theorem set_parent_raises_iff:
  assumes "table_ok db" "forest db"
      and "\<forall>q'. q = Some q' \<longrightarrow> stored db q'"
      and "get_parent db p = Inr old"
  shows "((\<exists>e p' db'. set_parent object_name backend urls db p q = Some (Inl e, p', db'))
            \<longleftrightarrow> in_ancestor_chain db p q) \<and>
         (\<not> in_ancestor_chain db p q \<longrightarrow>
            (\<exists>p' db' k. set_parent object_name backend urls db p q = Some (Inr (), p', db') \<and>
                pk p' = Some k \<and> (case pk p of None \<Rightarrow> k = next_id db | Some i \<Rightarrow> k = i) \<and>
                parent_id p' = (case q of None \<Rightarrow> None | Some q' \<Rightarrow> pk q') \<and>
                (\<exists>r. rows db' k = Some r \<and> parent_id r = (case q of None \<Rightarrow> None | Some q' \<Rightarrow> pk q')) \<and>
                (\<exists>x\<in>set (drop (length (saved db)) (saved db')).
                    pk x = Some k \<and> parent_id x = (case q of None \<Rightarrow> None | Some q' \<Rightarrow> pk q'))))"
proof (cases "in_ancestor_chain db p q")
  case True
  with set_parent_outcome [OF assms, of object_name backend urls]
  have "set_parent object_name backend urls db p q = Some (Inl AttributeError, p, db)" by simp
  with True show ?thesis by simp
next
  case False
  with set_parent_outcome [OF assms, of object_name backend urls]
  have "\<exists>p' db' k. set_parent object_name backend urls db p q = Some (Inr (), p', db') \<and>
                table_ok db' \<and> forest db' \<and> pk p' = Some k \<and>
                (case pk p of None \<Rightarrow> k = next_id db | Some i \<Rightarrow> k = i) \<and>
                parent_id p' = (case q of None \<Rightarrow> None | Some q' \<Rightarrow> pk q') \<and>
                (\<exists>r. rows db' k = Some r \<and> parent_id r = (case q of None \<Rightarrow> None | Some q' \<Rightarrow> pk q')) \<and>
                (\<exists>x\<in>set (drop (length (saved db)) (saved db')).
                    pk x = Some k \<and> parent_id x = (case q of None \<Rightarrow> None | Some q' \<Rightarrow> pk q'))"
    by simp
  then obtain p' db' k where
    r: "set_parent object_name backend urls db p q = Some (Inr (), p', db')" "pk p' = Some k"
       "case pk p of None \<Rightarrow> k = next_id db | Some i \<Rightarrow> k = i"
       "parent_id p' = (case q of None \<Rightarrow> None | Some q' \<Rightarrow> pk q')"
       "\<exists>r. rows db' k = Some r \<and> parent_id r = (case q of None \<Rightarrow> None | Some q' \<Rightarrow> pk q')"
       "\<exists>x\<in>set (drop (length (saved db)) (saved db')).
                    pk x = Some k \<and> parent_id x = (case q of None \<Rightarrow> None | Some q' \<Rightarrow> pk q')"
    by blast
  from r(1) have "\<not> (\<exists>e p' db'. set_parent object_name backend urls db p q = Some (Inl e, p', db'))" by simp
  with False r show ?thesis by blast
qed

theorem set_parent_raises_iff_witness:
  "table_ok site_db \<and> forest site_db \<and> stored site_db site_mike \<and> stored site_db site_blog \<and>
   get_parent site_db site_about = Inr None \<and>
   get_parent site_db site_mike = Inr (Some site_team) \<and>
   in_ancestor_chain site_db site_about (Some site_mike) \<and>
   (\<exists>e p' db'. set_parent ''Page'' CaseSensitive site_urls site_db site_about (Some site_mike) = Some (Inl e, p', db')) \<and>
   \<not> in_ancestor_chain site_db site_mike (Some site_blog) \<and>
   (\<exists>p' db'. set_parent ''Page'' CaseSensitive site_urls site_db site_mike (Some site_blog) = Some (Inr (), p', db') \<and>
       pk p' = Some 3 \<and> parent_id p' = Some 4 \<and>
       (\<exists>r. rows db' 3 = Some r \<and> parent_id r = Some 4) \<and>
       (\<exists>x\<in>set (saved db'). pk x = Some 3 \<and> parent_id x = Some 4))"
proof -
  have st: "\<forall>q'. Some site_mike = Some q' \<longrightarrow> stored site_db q'"
           "\<forall>q'. Some site_blog = Some q' \<longrightarrow> stored site_db q'"
    using site_stored by simp_all
  from set_parent_raises_iff [OF site_table_ok site_forest st(1) site_parents(1), of "''Page''" CaseSensitive site_urls]
    site_about_in_chain_mike
  have a: "\<exists>e p' db'. set_parent ''Page'' CaseSensitive site_urls site_db site_about (Some site_mike) = Some (Inl e, p', db')"
    by blast
  have pm: "pk site_mike = Some 3" and pb: "pk site_blog = Some 4"
    by (simp_all add: site_mike_def site_blog_def)
  have log: "drop (length (saved site_db)) l = l" for l :: "page list"
    by (simp add: site_db_def)
  from set_parent_raises_iff [OF site_table_ok site_forest st(2) site_parents(3), of "''Page''" CaseSensitive site_urls]
    site_mike_not_in_chain_blog
  have "\<exists>p' db' k. set_parent ''Page'' CaseSensitive site_urls site_db site_mike (Some site_blog) = Some (Inr (), p', db') \<and>
       pk p' = Some k \<and> (case pk site_mike of None \<Rightarrow> k = next_id site_db | Some i \<Rightarrow> k = i) \<and>
       parent_id p' = (case Some site_blog of None \<Rightarrow> None | Some q' \<Rightarrow> pk q') \<and>
       (\<exists>r. rows db' k = Some r \<and> parent_id r = (case Some site_blog of None \<Rightarrow> None | Some q' \<Rightarrow> pk q')) \<and>
       (\<exists>x\<in>set (drop (length (saved site_db)) (saved db')).
            pk x = Some k \<and> parent_id x = (case Some site_blog of None \<Rightarrow> None | Some q' \<Rightarrow> pk q'))"
    by blast
  then have b: "\<exists>p' db'. set_parent ''Page'' CaseSensitive site_urls site_db site_mike (Some site_blog) = Some (Inr (), p', db') \<and>
       pk p' = Some 3 \<and> parent_id p' = Some 4 \<and>
       (\<exists>r. rows db' 3 = Some r \<and> parent_id r = Some 4) \<and>
       (\<exists>x\<in>set (saved db'). pk x = Some 3 \<and> parent_id x = Some 4)"
    by (auto simp: pm pb log)
  show ?thesis
    using site_table_ok site_forest site_stored(3,4) site_parents(1,3) site_about_in_chain_mike a
      site_mike_not_in_chain_blog b
    by (intro conjI)
qed

text \<open>
  As worded for every page and every candidate parent, C1 fails at three kinds of input.
  A page whose own parent key leads to no row makes line 175 raise
  \<^verbatim>\<open>DoesNotExist\<close>, though the page is not in the candidate's chain. Two unsaved
  pages have the same primary key, none, so line 181 raises although the candidate is
  another page and has no parents. And for a candidate loaded before it was moved, the
  check follows the object's parent key, not the stored one: Blog is the stored parent of
  News, yet Blog is given the stale News as parent without an error.
\<close>

theorem set_parent_raises_iff_counterexample:
  "set_parent ''Page'' CaseSensitive site_urls site_db orphan_page (Some site_blog)
     = Some (Inl DoesNotExist, orphan_page, site_db) \<and>
   \<not> in_ancestor_chain site_db orphan_page (Some site_blog) \<and>
   set_parent ''Page'' CaseSensitive site_urls site_db unsaved_ann (Some unsaved_bob)
     = Some (Inl AttributeError, unsaved_ann, site_db) \<and>
   unsaved_bob \<noteq> unsaved_ann \<and> get_parent site_db unsaved_bob = Inr None \<and>
   rows news_db 2 = Some news_page \<and> parent_id news_page = pk blog_page \<and>
   pk news_page_stale = pk news_page \<and>
   set_parent ''Page'' CaseSensitive site_urls news_db blog_page (Some news_page_stale)
     = Some (Inr (),
             blog_page\<lparr>parent_id := Some 2, titles := Some ''News / Blog'', slug := ''news/blog''\<rparr>,
             news_db\<lparr>rows := (rows news_db)
                             (1 \<mapsto> blog_page\<lparr>parent_id := Some 2, titles := Some ''News / Blog''\<rparr>),
                     saved := [blog_page\<lparr>parent_id := Some 2, titles := Some ''News / Blog''\<rparr>]\<rparr>)"
proof -
  have "rows site_db 9 = None" by (simp add: site_db_def)
  then have a: "set_parent ''Page'' CaseSensitive site_urls site_db orphan_page (Some site_blog)
     = Some (Inl DoesNotExist, orphan_page, site_db)"
    by (simp add: set_parent_def get_parent_def load_def orphan_page_def)
  have b: "\<not> in_ancestor_chain site_db orphan_page (Some site_blog)"
    using in_ancestor_chain_iff [OF site_chain_blog, of orphan_page]
    by (simp add: orphan_page_def site_blog_def)
  have c: "set_parent ''Page'' CaseSensitive site_urls site_db unsaved_ann (Some unsaved_bob)
     = Some (Inl AttributeError, unsaved_ann, site_db)"
    by (simp add: set_parent_def get_parent_def cycle_check_Some unsaved_ann_def unsaved_bob_def)
  have d: "unsaved_bob \<noteq> unsaved_ann" "get_parent site_db unsaved_bob = Inr None"
    by (simp_all add: unsaved_ann_def unsaved_bob_def get_parent_def)
  have e: "rows news_db 2 = Some news_page" "parent_id news_page = pk blog_page"
    "pk news_page_stale = pk news_page"
    by (simp_all add: news_db_def news_page_def blog_page_def news_page_stale_def)
  show ?thesis using a b c d e stale_candidate_call by (intro conjI)
qed

text \<open>
  C2, as amended. If the table is well-formed and the parent pointers of the stored pages form a
  forest before \<^verbatim>\<open>Page.set_parent(p, q)\<close>, where \<open>q\<close> is none or a stored page,
  then the call ends, normally or with an error, and the parent pointers of the stored
  pages form a forest afterwards.
\<close>

theorem set_parent_keeps_forest:
  assumes "table_ok db" "forest db"
      and "\<forall>q'. q = Some q' \<longrightarrow> stored db q'"
  shows "\<exists>out p' db'. set_parent object_name backend urls db p q = Some (out, p', db') \<and>
           table_ok db' \<and> forest db'"
proof (cases "get_parent db p")
  case (Inl e)
  then have "set_parent object_name backend urls db p q = Some (Inl e, p, db)"
    by (simp add: set_parent_def)
  with assms(1,2) show ?thesis by blast
next
  case (Inr old)
  note out = set_parent_outcome [OF assms Inr, of object_name backend urls]
  show ?thesis
  proof (cases "in_ancestor_chain db p q")
    case True
    with out have "set_parent object_name backend urls db p q = Some (Inl AttributeError, p, db)" by simp
    with assms(1,2) show ?thesis by blast
  next
    case False
    with out show ?thesis by auto
  qed
qed

theorem set_parent_keeps_forest_witness:
  "table_ok site_db \<and> forest site_db \<and> stored site_db site_blog \<and> stored site_db site_mike \<and>
   (\<exists>p' db'. set_parent ''Page'' CaseSensitive site_urls site_db site_mike (Some site_blog) = Some (Inr (), p', db') \<and>
       table_ok db' \<and> forest db') \<and>
   (\<exists>p' db'. set_parent ''Page'' CaseSensitive site_urls site_db site_about (Some site_mike)
                = Some (Inl AttributeError, p', db') \<and> table_ok db' \<and> forest db')"
proof -
  have st: "\<forall>q'. Some site_mike = Some q' \<longrightarrow> stored site_db q'"
           "\<forall>q'. Some site_blog = Some q' \<longrightarrow> stored site_db q'"
    using site_stored by simp_all
  from set_parent_keeps_forest [OF site_table_ok site_forest st(2), of "''Page''" CaseSensitive site_urls site_mike]
  obtain out p' db' where
    r: "set_parent ''Page'' CaseSensitive site_urls site_db site_mike (Some site_blog) = Some (out, p', db')"
       "table_ok db'" "forest db'" by blast
  from set_parent_outcome [OF site_table_ok site_forest st(2) site_parents(3), of "''Page''" CaseSensitive site_urls]
    site_mike_not_in_chain_blog
  have "\<exists>p'' db''. set_parent ''Page'' CaseSensitive site_urls site_db site_mike (Some site_blog) = Some (Inr (), p'', db'')"
    by auto
  with r(1) have "out = Inr ()" by auto
  with r have a: "\<exists>p' db'. set_parent ''Page'' CaseSensitive site_urls site_db site_mike (Some site_blog)
                    = Some (Inr (), p', db') \<and> table_ok db' \<and> forest db'" by blast
  from set_parent_keeps_forest [OF site_table_ok site_forest st(1), of "''Page''" CaseSensitive site_urls site_about]
    site_set_parent_cycle
  have b: "\<exists>p' db'. set_parent ''Page'' CaseSensitive site_urls site_db site_about (Some site_mike)
                = Some (Inl AttributeError, p', db') \<and> table_ok db' \<and> forest db'" by auto
  show ?thesis using site_table_ok site_forest site_stored(3,4) a b by (intro conjI)
qed

text \<open>
  As worded, C2 fails when the candidate parent is an object that no longer agrees with
  its stored row. The table of Blog and News is a forest; News was moved under Blog after
  the object \<open>news_page_stale\<close> was loaded. The check of lines 179-184 follows the
  parent key of the object, finds no parent, and the call returns normally, having stored
  Blog under News while News is stored under Blog.
\<close>

theorem set_parent_keeps_forest_counterexample:
  "table_ok news_db \<and> forest news_db \<and>
   set_parent ''Page'' CaseSensitive site_urls news_db blog_page (Some news_page_stale)
     = Some (Inr (),
             blog_page\<lparr>parent_id := Some 2, titles := Some ''News / Blog'', slug := ''news/blog''\<rparr>,
             news_db\<lparr>rows := (rows news_db)
                             (1 \<mapsto> blog_page\<lparr>parent_id := Some 2, titles := Some ''News / Blog''\<rparr>),
                     saved := [blog_page\<lparr>parent_id := Some 2, titles := Some ''News / Blog''\<rparr>]\<rparr>) \<and>
   \<not> forest (news_db\<lparr>rows := (rows news_db)
                             (1 \<mapsto> blog_page\<lparr>parent_id := Some 2, titles := Some ''News / Blog''\<rparr>),
                     saved := [blog_page\<lparr>parent_id := Some 2, titles := Some ''News / Blog''\<rparr>]\<rparr>)"
proof -
  let ?db' = "news_db\<lparr>rows := (rows news_db)
                             (1 \<mapsto> blog_page\<lparr>parent_id := Some 2, titles := Some ''News / Blog''\<rparr>),
                     saved := [blog_page\<lparr>parent_id := Some 2, titles := Some ''News / Blog''\<rparr>]\<rparr>"
  have ok: "table_ok news_db"
    by (auto simp: table_ok_def news_db_def blog_page_def news_page_def split: if_splits)
  have fo: "forest news_db"
    by (rule forest_parents_older)
       (auto simp: news_db_def blog_page_def news_page_def split: if_splits)
  have "(1, 2) \<in> parent_rel ?db'" "(2, 1) \<in> parent_rel ?db'"
    by (simp_all add: parent_rel_def news_db_def news_page_def blog_page_def)
  then have "(1, 1) \<in> (parent_rel ?db')\<^sup>+" by (meson trancl.intros)
  then have "\<not> acyclic (parent_rel ?db')" by (auto simp: acyclic_def)
  then have nf: "\<not> forest ?db'" by (simp add: forest_def)
  show ?thesis using ok fo stale_candidate_call nf by (intro conjI)
qed

text \<open>
  C5. For a page with a parent on which \<^verbatim>\<open>_ascendants\<close> is not set and whose slug
  is not empty, \<^verbatim>\<open>Page.get_ascendants\<close> takes \<^verbatim>\<open>_ascendants\<close> from the first page
  that \<^verbatim>\<open>with_ascendants_for_slug\<close> returns (lines 117-121), without looking whether
  there is such a page and whether it is the page itself. The chain of parents of Mike
  is Team, About. When the query answers with Team first, Mike is given the ascendants
  of Team, About alone, and they are cached; when the query answers with no page, the
  method raises \<^verbatim>\<open>IndexError\<close>.
\<close>

theorem get_ascendants_first_page_unchecked:
  "chain site_db (Some site_mike) [site_mike, site_team, site_about] \<and>
   get_ascendants query_finds_team site_db \<lparr>columns = site_mike, ascendants = None\<rparr>
     = Some (Inr ([site_about], \<lparr>columns = site_mike, ascendants = Some [site_about]\<rparr>)) \<and>
   get_ascendants query_finds_nothing site_db \<lparr>columns = site_mike, ascendants = None\<rparr>
     = Some (Inl IndexError)"
proof -
  have "get_ascendants query_finds_team site_db \<lparr>columns = site_mike, ascendants = None\<rparr>
     = Some (Inr ([site_about], \<lparr>columns = site_mike, ascendants = Some [site_about]\<rparr>))"
    by (simp add: get_ascendants_def query_finds_team_def site_mike_def)
  moreover have "get_ascendants query_finds_nothing site_db \<lparr>columns = site_mike, ascendants = None\<rparr>
     = Some (Inl IndexError)"
    by (simp add: get_ascendants_def query_finds_nothing_def site_mike_def)
  ultimately show ?thesis using site_chain_mike by (intro conjI)
qed

text \<open>
  C7. \<^verbatim>\<open>send_pending_email\<close> returns the users of the "Publisher" group,
  restricted to the members of the owning group when the item has one and some
  publisher belongs to it, and all publishers otherwise. It hands exactly one message to
  \<^verbatim>\<open>send_mail\<close>: its body is "http://", the domain of the current site and the
  admin URL of the item, and its recipients are the distinct email addresses of the
  returned users.
\<close>

theorem send_pending_email_recipients:
  assumes "send_pending_email verbose_name admin_url env self = (publishers, env')"
  shows "set publishers =
           (if owning_group self \<noteq> None \<and>
               {u \<in> set (users env). (\<exists>g\<in>set (groups u). group_name g = ''Publisher'') \<and>
                   (\<exists>g\<in>set (groups u). group_pk g = group_pk (the (owning_group self)))} \<noteq> {}
            then {u \<in> set (users env). (\<exists>g\<in>set (groups u). group_name g = ''Publisher'') \<and>
                   (\<exists>g\<in>set (groups u). group_pk g = group_pk (the (owning_group self)))}
            else {u \<in> set (users env). \<exists>g\<in>set (groups u). group_name g = ''Publisher''}) \<and>
         (\<exists>m. outbox env' = outbox env @ [m] \<and>
              mail_body m = ''http://'' @ site_domain env @ admin_url \<and>
              set (mail_to m) = email ` set publishers \<and> distinct (mail_to m))"
proof -
  let ?all = "filter_groups_name ''Publisher'' (users env)"
  let ?own = "case owning_group self of
                Some g \<Rightarrow> filter_groups_name ''Publisher'' (filter_groups g (users env))
              | None \<Rightarrow> []"
  from assms have pubs: "publishers = (if ?own \<noteq> [] then ?own else ?all)"
    and env': "env' = env\<lparr>outbox := outbox env @
                 [\<lparr>mail_subject = ''Draft '' @ lower verbose_name @ '' needs moderation'',
                   mail_body = ''http://'' @ site_domain env @ admin_url,
                   mail_from = DEFAULT_FROM_EMAIL env,
                   mail_to = remdups (map email publishers), fail_silently = \<not> DEBUG env\<rparr>]\<rparr>"
    by (auto simp: send_pending_email_def Let_def)
  have "set publishers =
           (if owning_group self \<noteq> None \<and>
               {u \<in> set (users env). (\<exists>g\<in>set (groups u). group_name g = ''Publisher'') \<and>
                   (\<exists>g\<in>set (groups u). group_pk g = group_pk (the (owning_group self)))} \<noteq> {}
            then {u \<in> set (users env). (\<exists>g\<in>set (groups u). group_name g = ''Publisher'') \<and>
                   (\<exists>g\<in>set (groups u). group_pk g = group_pk (the (owning_group self)))}
            else {u \<in> set (users env). \<exists>g\<in>set (groups u). group_name g = ''Publisher''})"
  proof (cases "owning_group self")
    case None
    then show ?thesis unfolding pubs by (simp add: set_filter_groups_name)
  next
    case (Some og)
    let ?r = "filter_groups_name ''Publisher'' (filter_groups og (users env))"
    have r: "set ?r = {u \<in> set (users env). (\<exists>g\<in>set (groups u). group_name g = ''Publisher'') \<and>
                   (\<exists>g\<in>set (groups u). group_pk g = group_pk og)}"
      by (auto simp: set_filter_groups_name set_filter_groups)
    have "publishers = (if ?r \<noteq> [] then ?r else ?all)" using pubs Some by simp
    then have "set publishers = (if set ?r \<noteq> {} then set ?r else set ?all)" by simp
    then show ?thesis unfolding r using Some by (simp add: set_filter_groups_name) blast
  qed
  moreover have "\<exists>m. outbox env' = outbox env @ [m] \<and>
              mail_body m = ''http://'' @ site_domain env @ admin_url \<and>
              set (mail_to m) = email ` set publishers \<and> distinct (mail_to m)"
    unfolding env' by simp
  ultimately show ?thesis by blast
qed

theorem send_pending_email_recipients_witness:
  "send_pending_email ''Moderated page'' ''/admin/pages/moderatedpage/7/'' site_env sports_draft
     = (fst (send_pending_email ''Moderated page'' ''/admin/pages/moderatedpage/7/'' site_env sports_draft),
        snd (send_pending_email ''Moderated page'' ''/admin/pages/moderatedpage/7/'' site_env sports_draft)) \<and>
   set (fst (send_pending_email ''Moderated page'' ''/admin/pages/moderatedpage/7/'' site_env sports_draft))
     = {user_alice} \<and>
   (\<exists>m. outbox (snd (send_pending_email ''Moderated page'' ''/admin/pages/moderatedpage/7/'' site_env sports_draft))
          = [m] \<and>
        mail_body m = ''http://example.com/admin/pages/moderatedpage/7/'' \<and>
        set (mail_to m) = {''alice@example.com''} \<and> distinct (mail_to m))"
proof -
  let ?r = "send_pending_email ''Moderated page'' ''/admin/pages/moderatedpage/7/'' site_env sports_draft"
  have h: "?r = (fst ?r, snd ?r)" by simp
  have og: "owning_group sports_draft \<noteq> None" by (simp add: sports_draft_def)
  note t = send_pending_email_recipients [OF h, unfolded site_env_publishers]
  from t og have pubs: "set (fst ?r) = {user_alice}" by simp
  from t have m: "\<exists>m. outbox (snd ?r) = outbox site_env @ [m] \<and>
              mail_body m = ''http://'' @ site_domain site_env @ ''/admin/pages/moderatedpage/7/'' \<and>
              set (mail_to m) = email ` set (fst ?r) \<and> distinct (mail_to m)"
    by blast
  from m pubs have "\<exists>m. outbox (snd ?r) = [m] \<and>
        mail_body m = ''http://example.com/admin/pages/moderatedpage/7/'' \<and>
        set (mail_to m) = {''alice@example.com''} \<and> distinct (mail_to m)"
    by (simp add: site_env_def user_alice_def)
  with h pubs show ?thesis by blast
qed

end
